theory Spec2Isabelle
  imports Complex_Main
begin

section \<open>Common types (graph_algorithms.h)\<close>

text \<open>
  \<^verbatim>\<open>using Vertex = int; using Weight = double;\<close>
  \<^verbatim>\<open>constexpr Weight INF = std::numeric_limits<Weight>::infinity();\<close>

  A vertex is a C++ \<open>int\<close>; no arithmetic is done on vertices, so it is an unbounded
  \<open>int\<close> here. A weight is a \<open>double\<close>: it is idealised as a real number or the
  positive infinity \<open>INFTY\<close> (the source's \<open>INF\<close>; that name is reserved syntax in HOL).
  Rounding, NaN and negative infinity are outside this model.
\<close>

type_synonym Vertex = int

datatype Weight = Fin real | INFTY

text \<open>\<open>a < b\<close> and \<open>a + b\<close> on weights.\<close>

fun w_less :: "Weight \<Rightarrow> Weight \<Rightarrow> bool" where
  "w_less (Fin a) (Fin b) = (a < b)"
| "w_less (Fin a) INFTY = True"
| "w_less INFTY b = False"

fun w_add :: "Weight \<Rightarrow> Weight \<Rightarrow> Weight" where
  "w_add (Fin a) (Fin b) = Fin (a + b)"
| "w_add (Fin a) INFTY = INFTY"
| "w_add INFTY b = INFTY"

text \<open>The exceptions the code throws.\<close>

datatype error = out_of_range | invalid_argument

section \<open>The graph\<close>

text \<open>\<^verbatim>\<open>struct Edge { Vertex to; Weight weight; };\<close>\<close>

datatype Edge = Edge (to: Vertex) (weight: Weight)

text \<open>
  \<^verbatim>\<open>class Graph { int n_; bool directed_; LinkedList<Edge>* adj_; }\<close>

  The fields are named after their accessors \<open>vertex_count()\<close> and \<open>is_directed()\<close>
  (a name ending in an underscore is not available in HOL). \<open>adj_\<close> is an array of \<open>n_\<close>
  linked lists, a null pointer when \<open>n_ \<le> 0\<close>; \<open>LinkedList\<close> is the sequence library's
  list, whose \<open>Append\<close> adds at the end and whose enumerator runs front to back.
\<close>

record Graph =
  vertex_count :: int
  is_directed :: bool
  adj :: "Edge list list"

text \<open>The constructor \<open>Graph(int n, bool directed)\<close>.\<close>

definition Graph_new :: "int \<Rightarrow> bool \<Rightarrow> Graph" where
  "Graph_new n directed =
     \<lparr>vertex_count = n, is_directed = directed,
      adj = (if n > 0 then replicate (nat n) [] else [])\<rparr>"

text \<open>
  \<open>add_edge\<close> mutates the graph and may throw: the model returns the graph as it is after
  the call together with the exception raised, if any.
\<close>

definition add_edge :: "Graph \<Rightarrow> Vertex \<Rightarrow> Vertex \<Rightarrow> Weight \<Rightarrow> Graph \<times> error option" where
  "add_edge g u v w =
     (if u < 0 \<or> v < 0 \<or> u \<ge> vertex_count g \<or> v \<ge> vertex_count g
      then (g, Some out_of_range)
      else
        let a1 = (adj g)[nat u := adj g ! nat u @ [Edge v w]];
            a2 = (if \<not> is_directed g \<and> u \<noteq> v
                  then a1[nat v := a1 ! nat v @ [Edge u w]] else a1)
        in (g\<lparr>adj := a2\<rparr>, None))"

text \<open>\<open>neighbors(u)\<close> returns \<open>adj_[u]\<close>.\<close>

definition neighbors :: "Graph \<Rightarrow> Vertex \<Rightarrow> Edge list" where
  "neighbors g u = adj g ! nat u"

text \<open>
  \<open>edge_count()\<close>: the lengths of the \<open>n_\<close> lists summed (a \<open>size_t\<close>, here a \<open>nat\<close>),
  halved for an undirected graph.
\<close>

definition edge_count :: "Graph \<Rightarrow> nat" where
  "edge_count g =
     (let m = sum_list (map (\<lambda>i. length (adj g ! i)) [0..<nat (vertex_count g)])
      in if \<not> is_directed g then m div 2 else m)"

text \<open>
  The class invariant: \<open>adj_\<close> holds \<open>n_\<close> lists, and every stored endpoint is a vertex.
  The constructor (for \<open>n \<ge> 0\<close>) establishes it and \<open>add_edge\<close> keeps it.
\<close>

definition graph_inv :: "Graph \<Rightarrow> bool" where
  "graph_inv g =
     (0 \<le> vertex_count g \<and> length (adj g) = nat (vertex_count g) \<and>
      list_all (list_all (\<lambda>e. 0 \<le> to e \<and> to e < vertex_count g)) (adj g))"

text \<open>A caller inserting a sequence of edges \<open>(u, v, w)\<close>, stopping at the first exception.\<close>

fun add_edges :: "Graph \<Rightarrow> (Vertex \<times> Vertex \<times> Weight) list \<Rightarrow> Graph \<times> error option" where
  "add_edges g [] = (g, None)"
| "add_edges g ((u, v, w) # es) =
     (case add_edge g u v w of
        (g', None) \<Rightarrow> add_edges g' es
      | (g', Some e) \<Rightarrow> (g', Some e))"

text \<open>All directed entries stored in the adjacency lists.\<close>

definition total_entries :: "Graph \<Rightarrow> nat" where
  "total_entries g = sum_list (map length (adj g))"

section \<open>The sequence library and the priority queue\<close>

text \<open>
  Modelled from the spec: \<open>DynamicArray\<close> (LibrarySequence/DynamicArray.h) is not among the
  sources. It is the fixed-size array "indexed by vertex" of the spec's design notes:
  \<open>DynamicArray(n)\<close> holds \<open>n\<close> elements, \<open>GetSize\<close> is their number, and \<open>Get\<close> and \<open>Set\<close>
  are taken to be bounds-checked, throwing \<open>out_of_range\<close> for an index outside
  \<open>[0, GetSize())\<close>. The initial content of the elements is never read by the code modelled
  here; it is a parameter of \<open>da_new\<close>.
\<close>

definition da_new :: "int \<Rightarrow> 'a \<Rightarrow> 'a list" where
  "da_new n x = replicate (nat n) x"

definition da_GetSize :: "'a list \<Rightarrow> int" where
  "da_GetSize a = int (length a)"

definition da_Get :: "'a list \<Rightarrow> int \<Rightarrow> error + 'a" where
  "da_Get a i = (if 0 \<le> i \<and> i < int (length a) then Inr (a ! nat i) else Inl out_of_range)"

definition da_Set :: "'a list \<Rightarrow> int \<Rightarrow> 'a \<Rightarrow> error + 'a list" where
  "da_Set a i x = (if 0 \<le> i \<and> i < int (length a) then Inr (a[nat i := x]) else Inl out_of_range)"

text \<open>
  Modelled from the spec: \<open>HashTablePriorityQueue\<close> (hash_priority_queue.h) is not among the
  sources. By the spec (4.1) and the interface ipriority_queue.h, \<open>Enqueue\<close> inserts
  unconditionally (an element may be queued several times), \<open>Dequeue\<close> removes and returns
  an element of least priority value and throws \<open>out_of_range\<close> on an empty queue. Ties are
  broken here in favour of the entry enqueued first.
\<close>

type_synonym PQ = "(Vertex \<times> Weight) list"

definition pq_new :: PQ where
  "pq_new = []"

definition IsEmpty :: "PQ \<Rightarrow> bool" where
  "IsEmpty q = (q = [])"

definition Enqueue :: "PQ \<Rightarrow> Vertex \<Rightarrow> Weight \<Rightarrow> PQ" where
  "Enqueue q x p = q @ [(x, p)]"

fun pq_min :: "Vertex \<times> Weight \<Rightarrow> PQ \<Rightarrow> Vertex \<times> Weight" where
  "pq_min m [] = m"
| "pq_min m (x # xs) = pq_min (if w_less (snd x) (snd m) then x else m) xs"

definition Dequeue :: "PQ \<Rightarrow> error + (Vertex \<times> PQ)" where
  "Dequeue q =
     (case q of
        [] \<Rightarrow> Inl out_of_range
      | x # xs \<Rightarrow> (let m = pq_min x xs in Inr (fst m, remove1 m q)))"

text \<open>
  Loops. \<open>for_each body xs s\<close> runs \<open>body\<close> on the elements of \<open>xs\<close> in order, threading
  the state and stopping at the first exception: a \<open>while (it->MoveNext())\<close> over a list, or
  a \<open>for (int i = 0; i < n; ++i)\<close> over \<open>upto_n n\<close>, the integers \<open>0, ..., n - 1\<close>.
\<close>

fun for_each :: "('a \<Rightarrow> 's \<Rightarrow> error + 's) \<Rightarrow> 'a list \<Rightarrow> 's \<Rightarrow> error + 's" where
  "for_each body [] s = Inr s"
| "for_each body (x # xs) s =
     (case body x s of Inl e \<Rightarrow> Inl e | Inr s' \<Rightarrow> for_each body xs s')"

definition upto_n :: "int \<Rightarrow> int list" where
  "upto_n n = map int [0..<nat n]"

section \<open>Shortest paths\<close>

text \<open>
  \<^verbatim>\<open>struct ShortestPathResult { DynamicArray<Weight> dist; DynamicArray<Vertex> parent;\<close>
  \<^verbatim>\<open>                            bool has_negative_cycle; }\<close>
\<close>

record ShortestPathResult =
  dist :: "Weight list"
  parent :: "Vertex list"
  has_negative_cycle :: bool

text \<open>
  \<open>ShortestPathResult res(n)\<close> followed by the loop that sets every distance to \<open>INF\<close> and
  every parent to \<open>-1\<close>: the common prologue of both algorithms.
\<close>

definition init_step :: "int \<Rightarrow> ShortestPathResult \<Rightarrow> error + ShortestPathResult" where
  "init_step i res =
     (case da_Set (dist res) i INFTY of
        Inl e \<Rightarrow> Inl e
      | Inr d \<Rightarrow>
          (case da_Set (parent res) i (- 1) of
             Inl e \<Rightarrow> Inl e
           | Inr p \<Rightarrow> Inr (res\<lparr>dist := d, parent := p\<rparr>)))"

definition init_result :: "int \<Rightarrow> error + ShortestPathResult" where
  "init_result n =
     for_each init_step (upto_n n)
       \<lparr>dist = da_new n (Fin 0), parent = da_new n 0, has_negative_cycle = False\<rparr>"

subsection \<open>dijkstra\<close>

text \<open>
  The body of the inner \<open>while (it->MoveNext())\<close> loop for the edge \<open>e\<close> leaving \<open>u\<close>. The
  state is \<open>res.dist\<close> (\<open>ds\<close>), \<open>res.parent\<close> (\<open>ps\<close>) and the queue.
\<close>

type_synonym dijkstra_state = "Weight list \<times> Vertex list \<times> PQ"

definition dijkstra_relax :: "Vertex \<Rightarrow> Edge \<Rightarrow> dijkstra_state \<Rightarrow> error + dijkstra_state" where
  "dijkstra_relax u e st =
     (case st of (ds, ps, pq) \<Rightarrow>
        if w_less (weight e) (Fin 0) then Inr st
        else
          (case da_Get ds u of
             Inl x \<Rightarrow> Inl x
           | Inr du \<Rightarrow>
               if du = INFTY then Inr st
               else
                 (let nd = w_add du (weight e) in
                  case da_Get ds (to e) of
                    Inl x \<Rightarrow> Inl x
                  | Inr cur \<Rightarrow>
                      if w_less nd cur then
                        (case da_Set ds (to e) nd of
                           Inl x \<Rightarrow> Inl x
                         | Inr ds' \<Rightarrow>
                             (case da_Set ps (to e) u of
                                Inl x \<Rightarrow> Inl x
                              | Inr ps' \<Rightarrow> Inr (ds', ps', Enqueue pq (to e) nd)))
                      else Inr st)))"

lemma Dequeue_length:
  "Dequeue q = Inr (u, q') \<Longrightarrow> length q' < length q"
proof -
  have in_set: "pq_min m xs \<in> set (m # xs)" for m xs
    by (induction xs arbitrary: m) auto
  assume "Dequeue q = Inr (u, q')"
  then obtain x xs where q: "q = x # xs" and q': "q' = remove1 (pq_min x xs) q"
    by (auto simp: Dequeue_def Let_def split: list.splits)
  have mem: "pq_min x xs \<in> set q"
    using in_set [of x xs] q by simp
  have "0 < length q"
    using q by simp
  then show ?thesis
    unfolding q' using mem by (simp add: length_remove1)
qed

text \<open>
  The outer \<open>while (!pq.IsEmpty())\<close> loop. \<open>used\<close> is the array \<open>bool used[n]\<close>, read and
  written only at indices in \<open>[0, n)\<close>: a function from the index to the flag.
\<close>

function dijkstra_loop ::
  "Graph \<Rightarrow> int \<Rightarrow> dijkstra_state \<Rightarrow> (Vertex \<Rightarrow> bool) \<Rightarrow> error + (Weight list \<times> Vertex list)" where
  "dijkstra_loop g n (ds, ps, pq) used =
     (if IsEmpty pq then Inr (ds, ps)
      else
        (case Dequeue pq of
           Inl x \<Rightarrow> Inl x
         | Inr (u, pq1) \<Rightarrow>
             if u < 0 \<or> u \<ge> n then dijkstra_loop g n (ds, ps, pq1) used
             else if used u then dijkstra_loop g n (ds, ps, pq1) used
             else
               (case for_each (dijkstra_relax u) (neighbors g u) (ds, ps, pq1) of
                  Inl x \<Rightarrow> Inl x
                | Inr st' \<Rightarrow> dijkstra_loop g n st' (used(u := True)))))"
  by pat_completeness auto
termination
proof (relation "inv_image (less_than <*lex*> less_than)
    (\<lambda>(g, n, st, used). (card {v. 0 \<le> v \<and> v < n \<and> \<not> used v}, length (snd (snd st))))", goal_cases)
  case 1
  show ?case by (intro wf_inv_image wf_lex_prod wf_less_than)
next
  case (2 g n ds ps pq used x u pq1)
  then show ?case using Dequeue_length [of pq u pq1] by simp
next
  case (3 g n ds ps pq used x u pq1)
  then show ?case using Dequeue_length [of pq u pq1] by simp
next
  case (4 g n ds ps pq used x u pq1 st')
  have fin: "finite {v. 0 \<le> v \<and> v < n \<and> \<not> used v}"
    by (rule finite_subset [of _ "{0..<n}"]) auto
  have u: "u \<in> {v. 0 \<le> v \<and> v < n \<and> \<not> used v}"
    using 4 by simp
  have eq: "{v. 0 \<le> v \<and> v < n \<and> \<not> (used(u := True)) v} = {v. 0 \<le> v \<and> v < n \<and> \<not> used v} - {u}"
    by (rule set_eqI) simp
  have "card ({v. 0 \<le> v \<and> v < n \<and> \<not> used v} - {u}) < card {v. 0 \<le> v \<and> v < n \<and> \<not> used v}"
    using fin u by (rule card_Diff1_less)
  then show ?case
    unfolding eq [symmetric] by simp
qed

declare dijkstra_loop.simps [simp del]

definition dijkstra :: "Graph \<Rightarrow> Vertex \<Rightarrow> error + ShortestPathResult" where
  "dijkstra g source =
     (let n = vertex_count g in
      case init_result n of
        Inl x \<Rightarrow> Inl x
      | Inr res \<Rightarrow>
          if source < 0 \<or> source \<ge> n then Inr res
          else
            (case da_Set (dist res) source (Fin 0) of
               Inl x \<Rightarrow> Inl x
             | Inr d0 \<Rightarrow>
                 (case dijkstra_loop g n (d0, parent res, Enqueue pq_new source (Fin 0))
                         (\<lambda>i. False) of
                    Inl x \<Rightarrow> Inl x
                  | Inr (d, p) \<Rightarrow> Inr (res\<lparr>dist := d, parent := p\<rparr>))))"

subsection \<open>bellman_ford\<close>

text \<open>\<^verbatim>\<open>struct BFEdge { Vertex u, v; Weight w; };\<close>\<close>

datatype BFEdge = BFEdge (bf_u: Vertex) (bf_v: Vertex) (bf_w: Weight)

text \<open>
  The edge list. The array \<open>edges\<close> has \<open>m = g.edge_count()\<close> slots, of which the first
  \<open>idx\<close> are filled: it is modelled by the list of the filled slots, so \<open>idx\<close> is its
  length. An adjacency entry is stored only while \<open>idx < m\<close>.
\<close>

definition bf_store :: "nat \<Rightarrow> Vertex \<Rightarrow> Edge \<Rightarrow> BFEdge list \<Rightarrow> BFEdge list" where
  "bf_store m u e es = (if length es < m then es @ [BFEdge u (to e) (weight e)] else es)"

definition bf_edges :: "Graph \<Rightarrow> BFEdge list" where
  "bf_edges g =
     (let m = edge_count g
      in fold (\<lambda>u es. fold (bf_store m u) (neighbors g u) es) (upto_n (vertex_count g)) [])"

text \<open>The body of a relaxation pass for the edge \<open>e\<close>; the state carries \<open>changed\<close>.\<close>

definition bf_relax ::
  "BFEdge \<Rightarrow> Weight list \<times> Vertex list \<times> bool \<Rightarrow> error + (Weight list \<times> Vertex list \<times> bool)" where
  "bf_relax e st =
     (case st of (ds, ps, changed) \<Rightarrow>
        (case da_Get ds (bf_u e) of
           Inl x \<Rightarrow> Inl x
         | Inr du \<Rightarrow>
             if du = INFTY then Inr st
             else
               (case da_Get ds (bf_v e) of
                  Inl x \<Rightarrow> Inl x
                | Inr dv \<Rightarrow>
                    if w_less (w_add du (bf_w e)) dv then
                      (case da_Set ds (bf_v e) (w_add du (bf_w e)) of
                         Inl x \<Rightarrow> Inl x
                       | Inr ds' \<Rightarrow>
                           (case da_Set ps (bf_v e) (bf_u e) of
                              Inl x \<Rightarrow> Inl x
                            | Inr ps' \<Rightarrow> Inr (ds', ps', True)))
                    else Inr st)))"

text \<open>
  The main loop \<open>for (int i = 0; i < n - 1; ++i)\<close>, by the number of passes left, with its
  \<open>if (!changed) break\<close>.
\<close>

fun bf_passes ::
  "nat \<Rightarrow> BFEdge list \<Rightarrow> Weight list \<times> Vertex list \<Rightarrow> error + (Weight list \<times> Vertex list)" where
  "bf_passes 0 es (ds, ps) = Inr (ds, ps)"
| "bf_passes (Suc k) es (ds, ps) =
     (case for_each bf_relax es (ds, ps, False) of
        Inl x \<Rightarrow> Inl x
      | Inr (ds', ps', changed) \<Rightarrow>
          if \<not> changed then Inr (ds', ps') else bf_passes k es (ds', ps'))"

text \<open>The last loop: stop with the flag set at the first edge that can still be relaxed.\<close>

fun bf_detect :: "BFEdge list \<Rightarrow> Weight list \<Rightarrow> error + bool" where
  "bf_detect [] ds = Inr False"
| "bf_detect (e # es) ds =
     (case da_Get ds (bf_u e) of
        Inl x \<Rightarrow> Inl x
      | Inr du \<Rightarrow>
          if du = INFTY then bf_detect es ds
          else
            (case da_Get ds (bf_v e) of
               Inl x \<Rightarrow> Inl x
             | Inr dv \<Rightarrow>
                 if w_less (w_add du (bf_w e)) dv then Inr True else bf_detect es ds))"

definition bellman_ford :: "Graph \<Rightarrow> Vertex \<Rightarrow> error + ShortestPathResult" where
  "bellman_ford g source =
     (let n = vertex_count g in
      case init_result n of
        Inl x \<Rightarrow> Inl x
      | Inr res \<Rightarrow>
          if source < 0 \<or> source \<ge> n then Inr (res\<lparr>has_negative_cycle := False\<rparr>)
          else
            (case da_Set (dist res) source (Fin 0) of
               Inl x \<Rightarrow> Inl x
             | Inr d0 \<Rightarrow>
                 (let es = bf_edges g in
                  case bf_passes (nat (n - 1)) es (d0, parent res) of
                    Inl x \<Rightarrow> Inl x
                  | Inr (d, p) \<Rightarrow>
                      (case bf_detect es d of
                         Inl x \<Rightarrow> Inl x
                       | Inr flag \<Rightarrow>
                           Inr \<lparr>dist = d, parent = p, has_negative_cycle = flag\<rparr>))))"

section \<open>Random graphs\<close>

text \<open>
  The generator \<open>std::mt19937 gen(rd())\<close> is seeded from the outside world: its output is a
  parameter, the sequence \<open>draws\<close> of canonical values, with the number of values consumed
  so far. \<open>prob_dist(gen)\<close> is the next value; \<open>w_dist(gen)\<close> maps the next value to
  \<open>[min_w, max_w)\<close>. A canonical value is \<open>(x1 + x2 * 2^32) / 2^64\<close> for two consecutive
  32-bit outputs \<open>x1\<close>, \<open>x2\<close> of the engine: it is below \<open>1\<close>, and it is \<open>0\<close> only if
  both outputs are \<open>0\<close>. The engine itself is not modelled; what a theorem needs of the
  draws is a hypothesis of that theorem.
\<close>

type_synonym rng = "(nat \<Rightarrow> real) \<times> nat"

definition next_draw :: "rng \<Rightarrow> real \<times> rng" where
  "next_draw r = (fst r (snd r), (fst r, Suc (snd r)))"

text \<open>The body of the inner loop of \<open>generate_random_graph\<close>, for the pair \<open>(u, v)\<close>.\<close>

definition gen_step ::
  "real \<Rightarrow> real \<Rightarrow> real \<Rightarrow> bool \<Rightarrow> Vertex \<Rightarrow> Vertex \<Rightarrow> Graph \<times> rng \<Rightarrow> error + (Graph \<times> rng)" where
  "gen_step p min_w max_w directed u v st =
     (case st of (g, r) \<Rightarrow>
        if \<not> directed \<and> v \<le> u then Inr st
        else if u = v then Inr st
        else
          (case next_draw r of (x, r1) \<Rightarrow>
             if x \<le> p then
               (case next_draw r1 of (y, r2) \<Rightarrow>
                  (case add_edge g u v (Fin (min_w + (max_w - min_w) * y)) of
                     (g', None) \<Rightarrow> Inr (g', r2)
                   | (g', Some e) \<Rightarrow> Inl e))
             else Inr (g, r1)))"

definition generate_random_graph ::
  "int \<Rightarrow> real \<Rightarrow> real \<Rightarrow> real \<Rightarrow> bool \<Rightarrow> (nat \<Rightarrow> real) \<Rightarrow> error + Graph" where
  "generate_random_graph n p min_w max_w directed draws =
     (if n < 0 then Inl invalid_argument
      else if p < 0 \<or> p > 1 then Inl invalid_argument
      else
        (case (if min_w > max_w then (max_w, min_w) else (min_w, max_w)) of (lo, hi) \<Rightarrow>
           (case for_each (\<lambda>u. for_each (gen_step p lo hi directed u) (upto_n n)) (upto_n n)
                   (Graph_new n directed, (draws, 0)) of
              Inl e \<Rightarrow> Inl e
            | Inr (g, r) \<Rightarrow> Inr g)))"

section \<open>Path reconstruction\<close>

text \<open>
  The loop \<open>for (Vertex v = target; v != -1; v = parent.Get(v))\<close> of \<open>restore_path\<close>, with
  its \<open>break\<close> at the source. The state is the array \<open>rev\<close> (here \<open>rv\<close>) and \<open>len\<close>; \<open>par\<close> is
  the parent array.
\<close>

function restore_walk ::
  "Vertex list \<Rightarrow> Vertex \<Rightarrow> Vertex \<Rightarrow> Vertex list \<times> int \<Rightarrow> error + (Vertex list \<times> int)" where
  "restore_walk par source v (rv, len) =
     (if v = - 1 then Inr (rv, len)
      else
        (case da_Set rv len v of
           Inl x \<Rightarrow> Inl x
         | Inr rv' \<Rightarrow>
             if v = source then Inr (rv', len + 1)
             else
               (case da_Get par v of
                  Inl x \<Rightarrow> Inl x
                | Inr v' \<Rightarrow> restore_walk par source v' (rv', len + 1))))"
  by pat_completeness auto
termination
proof (relation "measure (\<lambda>(par, source, v, (rv, len)). nat (int (length rv) - len))", goal_cases)
  case 1
  show ?case by simp
next
  case (2 par source v rv len rv' v')
  then show ?case
    by (auto simp: da_Set_def split: if_splits)
qed

declare restore_walk.simps [simp del]

definition restore_copy :: "Vertex list \<Rightarrow> int \<Rightarrow> int \<Rightarrow> Vertex list \<Rightarrow> error + Vertex list" where
  "restore_copy rv len i path =
     (case da_Get rv (len - 1 - i) of
        Inl x \<Rightarrow> Inl x
      | Inr x \<Rightarrow> da_Set path i x)"

definition restore_path :: "Vertex \<Rightarrow> Vertex \<Rightarrow> Vertex list \<Rightarrow> error + Vertex list" where
  "restore_path source target par =
     (let n = da_GetSize par in
      if target < 0 \<or> target \<ge> n then Inr []
      else
        (case da_Get par target of
           Inl x \<Rightarrow> Inl x
         | Inr pt \<Rightarrow>
             if pt = - 1 \<and> target \<noteq> source then Inr []
             else
               (case restore_walk par source target (da_new n 0, 0) of
                  Inl x \<Rightarrow> Inl x
                | Inr (rv, len) \<Rightarrow>
                    if len = 0 then Inr []
                    else
                      (case da_Get rv (len - 1) of
                         Inl x \<Rightarrow> Inl x
                       | Inr l \<Rightarrow>
                           if l \<noteq> source then Inr []
                           else for_each (restore_copy rv len) (upto_n len) (da_new len 0)))))"

section \<open>The comparator\<close>

text \<open>
  \<^verbatim>\<open>struct BenchmarkRecord { int vertices; std::size_t edges; std::string algorithm;\<close>
  \<^verbatim>\<open>                         double time_ms; bool ok; };\<close>
\<close>

record BenchmarkRecord =
  vertices :: int
  edges :: nat
  algorithm :: string
  time_ms :: real
  ok :: bool

text \<open>
  \<open>std::abs(a - b) > 1e-6\<close>, which the comparator evaluates on finite distances only.
\<close>

fun w_far :: "Weight \<Rightarrow> Weight \<Rightarrow> bool" where
  "w_far (Fin a) (Fin b) = (\<bar>a - b\<bar> > 1 / 1000000)"
| "w_far a b = False"

text \<open>The loop that computes \<open>same\<close>, with its two \<open>break\<close>s.\<close>

fun same_loop :: "Weight list \<Rightarrow> Weight list \<Rightarrow> int list \<Rightarrow> error + bool" where
  "same_loop d b [] = Inr True"
| "same_loop d b (i # js) =
     (case da_Get d i of
        Inl x \<Rightarrow> Inl x
      | Inr di \<Rightarrow>
          (case da_Get b i of
             Inl x \<Rightarrow> Inl x
           | Inr bi \<Rightarrow>
               (let inf1 = (di = INFTY); inf2 = (bi = INFTY) in
                if inf1 \<noteq> inf2 then Inr False
                else if \<not> inf1 \<and> w_far di bi then Inr False
                else same_loop d b js)))"

text \<open>
  The comparator. The two elapsed times are read from the clock: they are parameters.
\<close>

definition compare_algorithms_on_graph ::
  "Graph \<Rightarrow> Vertex \<Rightarrow> real \<Rightarrow> real \<Rightarrow> error + BenchmarkRecord list" where
  "compare_algorithms_on_graph g source time_d_ms time_b_ms =
     (case dijkstra g source of
        Inl x \<Rightarrow> Inl x
      | Inr res_d \<Rightarrow>
          (case bellman_ford g source of
             Inl x \<Rightarrow> Inl x
           | Inr res_b \<Rightarrow>
               (case (if da_GetSize (dist res_d) = da_GetSize (dist res_b)
                      then same_loop (dist res_d) (dist res_b) (upto_n (da_GetSize (dist res_d)))
                      else Inr False) of
                  Inl x \<Rightarrow> Inl x
                | Inr same \<Rightarrow>
                    Inr [\<lparr>vertices = vertex_count g, edges = edge_count g,
                           algorithm = ''Dijkstra'', time_ms = time_d_ms,
                           ok = (da_GetSize (dist res_d) > 0)\<rparr>,
                         \<lparr>vertices = vertex_count g, edges = edge_count g,
                           algorithm = ''Bellman-Ford'', time_ms = time_b_ms,
                           ok = (\<not> has_negative_cycle res_b \<and> same)\<rparr>])))"

section \<open>Notions used to state the claims\<close>

text \<open>The graph without its edges of negative weight.\<close>

definition drop_negative :: "Graph \<Rightarrow> Graph" where
  "drop_negative g = g\<lparr>adj := map (filter (\<lambda>e. \<not> w_less (weight e) (Fin 0))) (adj g)\<rparr>"

text \<open>
  Every directed adjacency entry of the graph, in the order of the vertices and of their
  lists: what a full flattening of the graph holds.
\<close>

definition all_entries :: "Graph \<Rightarrow> BFEdge list" where
  "all_entries g =
     concat (map (\<lambda>u. map (\<lambda>e. BFEdge u (to e) (weight e)) (neighbors g u))
                 (upto_n (vertex_count g)))"

text \<open>The edge \<open>e\<close> can be relaxed at the distances \<open>ds\<close>.\<close>

definition can_relax :: "Weight list \<Rightarrow> BFEdge \<Rightarrow> bool" where
  "can_relax ds e =
     (ds ! nat (bf_u e) \<noteq> INFTY \<and>
      w_less (w_add (ds ! nat (bf_u e)) (bf_w e)) (ds ! nat (bf_v e)))"

text \<open>The main loop of \<open>bellman_ford\<close> without its early exit.\<close>

fun bf_passes_full ::
  "nat \<Rightarrow> BFEdge list \<Rightarrow> Weight list \<times> Vertex list \<Rightarrow> error + (Weight list \<times> Vertex list)" where
  "bf_passes_full 0 es (ds, ps) = Inr (ds, ps)"
| "bf_passes_full (Suc k) es (ds, ps) =
     (case for_each bf_relax es (ds, ps, False) of
        Inl x \<Rightarrow> Inl x
      | Inr (ds', ps', changed) \<Rightarrow> bf_passes_full k es (ds', ps'))"

text \<open>
  Agreement of two distance vectors, as the spec words it: the same length and, at every
  vertex, both infinite or both finite and within \<open>1e-6\<close> of each other.
\<close>

fun w_agree :: "Weight \<Rightarrow> Weight \<Rightarrow> bool" where
  "w_agree INFTY INFTY = True"
| "w_agree (Fin x) (Fin y) = (\<bar>x - y\<bar> \<le> 1 / 1000000)"
| "w_agree a b = False"

definition dists_agree :: "Weight list \<Rightarrow> Weight list \<Rightarrow> bool" where
  "dists_agree d b = (length d = length b \<and> (\<forall>i<length d. w_agree (d ! i) (b ! i)))"

text \<open>
  The backward walk from \<open>v\<close> reaches the none sentinel \<open>-1\<close> after \<open>k\<close> further steps
  without passing through the source: \<open>v\<close> and the \<open>k\<close> vertices after it are indices of
  the parent array other than the source, and the parent of the last one is \<open>-1\<close>.
\<close>

fun walk_to_none :: "Vertex list \<Rightarrow> Vertex \<Rightarrow> Vertex \<Rightarrow> nat \<Rightarrow> bool" where
  "walk_to_none par source v 0 =
     (0 \<le> v \<and> v < int (length par) \<and> v \<noteq> source \<and> par ! nat v = - 1)"
| "walk_to_none par source v (Suc k) =
     (0 \<le> v \<and> v < int (length par) \<and> v \<noteq> source \<and> walk_to_none par source (par ! nat v) k)"

text \<open>\<open>a <= b\<close> on weights, and graphs whose stored weights are all non-negative.\<close>

definition w_le :: "Weight \<Rightarrow> Weight \<Rightarrow> bool" where
  "w_le a b = (\<not> w_less b a)"

definition nonneg_weights :: "Graph \<Rightarrow> bool" where
  "nonneg_weights g = list_all (list_all (\<lambda>e. \<not> w_less (weight e) (Fin 0))) (adj g)"

text \<open>
  \<open>walk E s v x k\<close>: the edges \<open>E\<close> hold a walk from \<open>s\<close> to \<open>v\<close> of \<open>k\<close> edges with total
  (finite) weight \<open>x\<close>.
\<close>

inductive walk :: "BFEdge set \<Rightarrow> Vertex \<Rightarrow> Vertex \<Rightarrow> real \<Rightarrow> nat \<Rightarrow> bool" for E s where
  walk_start: "walk E s s 0 0"
| walk_step: "walk E s u x k \<Longrightarrow> BFEdge u v (Fin w) \<in> E \<Longrightarrow> walk E s v (x + w) (Suc k)"

text \<open>
  Every finite distance is the weight of a walk from the source (\<open>sound\<close>); every walk of
  at most \<open>j\<close> edges is matched by a distance that is not larger (\<open>covered\<close>).
\<close>

definition sound :: "BFEdge set \<Rightarrow> Vertex \<Rightarrow> Weight list \<Rightarrow> bool" where
  "sound E s ds = (\<forall>i<length ds. \<forall>x. ds ! i = Fin x \<longrightarrow> (\<exists>k. walk E s (int i) x k))"

definition covered :: "BFEdge set \<Rightarrow> Vertex \<Rightarrow> nat \<Rightarrow> Weight list \<Rightarrow> bool" where
  "covered E s j ds =
     (\<forall>v x k. k \<le> j \<longrightarrow> walk E s v x k \<longrightarrow> (\<exists>y. ds ! nat v = Fin y \<and> y \<le> x))"

text \<open>
  The invariant of the loop of \<open>dijkstra\<close>, in parts. \<open>used_count\<close> is the number of
  finalised vertices. \<open>dj_sound\<close>: every finite distance is the weight of a walk from the
  source with at most that many edges (fewer for a finalised vertex). \<open>dj_queued\<close>: every
  vertex with a finite distance that is not finalised is in the queue at that distance.
  \<open>dj_bounds\<close>: a queue entry is not below the distance of its vertex, nor below the
  distance of any finalised vertex. \<open>dj_relaxed\<close>: none of the edges \<open>es\<close> leaving \<open>u\<close> can
  be relaxed.
\<close>

definition used_count :: "int \<Rightarrow> (Vertex \<Rightarrow> bool) \<Rightarrow> nat" where
  "used_count n used = card {v. 0 \<le> v \<and> v < n \<and> used v}"

definition dj_sound :: "BFEdge set \<Rightarrow> int \<Rightarrow> Vertex \<Rightarrow> Weight list \<Rightarrow> (Vertex \<Rightarrow> bool) \<Rightarrow> bool" where
  "dj_sound E n s ds used =
     (\<forall>v x. 0 \<le> v \<longrightarrow> v < n \<longrightarrow> ds ! nat v = Fin x \<longrightarrow>
        (\<exists>k. walk E s v x k \<and> k \<le> used_count n used \<and> (used v \<longrightarrow> k < used_count n used)))"

definition dj_queued :: "int \<Rightarrow> Weight list \<Rightarrow> PQ \<Rightarrow> (Vertex \<Rightarrow> bool) \<Rightarrow> bool" where
  "dj_queued n ds pq used =
     (\<forall>v x. 0 \<le> v \<longrightarrow> v < n \<longrightarrow> \<not> used v \<longrightarrow> ds ! nat v = Fin x \<longrightarrow> (v, Fin x) \<in> set pq)"

definition dj_bounds :: "int \<Rightarrow> Weight list \<Rightarrow> PQ \<Rightarrow> (Vertex \<Rightarrow> bool) \<Rightarrow> bool" where
  "dj_bounds n ds pq used =
     (\<forall>v p. (v, p) \<in> set pq \<longrightarrow>
        (0 \<le> v \<longrightarrow> v < n \<longrightarrow> w_le (ds ! nat v) p) \<and>
        (\<forall>u. 0 \<le> u \<longrightarrow> u < n \<longrightarrow> used u \<longrightarrow> w_le (ds ! nat u) p))"

definition dj_relaxed :: "Weight list \<Rightarrow> Vertex \<Rightarrow> Edge list \<Rightarrow> bool" where
  "dj_relaxed ds u es = (\<forall>e\<in>set es. \<not> can_relax ds (BFEdge u (to e) (weight e)))"

definition dj_inv :: "Graph \<Rightarrow> Vertex \<Rightarrow> Weight list \<Rightarrow> PQ \<Rightarrow> (Vertex \<Rightarrow> bool) \<Rightarrow> bool" where
  "dj_inv g s ds pq used =
     (length ds = nat (vertex_count g) \<and> ds ! nat s = Fin 0 \<and>
      dj_sound (set (all_entries g)) (vertex_count g) s ds used \<and>
      dj_queued (vertex_count g) ds pq used \<and>
      dj_bounds (vertex_count g) ds pq used \<and>
      (\<forall>u. 0 \<le> u \<longrightarrow> u < vertex_count g \<longrightarrow> used u \<longrightarrow> dj_relaxed ds u (neighbors g u)))"

text \<open>
  The invariant of the inner loop while the edges of \<open>u\<close> are relaxed: \<open>used\<close> already counts
  \<open>u\<close>, \<open>du\<close> is the distance of \<open>u\<close>, and \<open>seen\<close> are the edges of \<open>u\<close> done so far.
\<close>

definition dj_inner ::
  "Graph \<Rightarrow> Vertex \<Rightarrow> (Vertex \<Rightarrow> bool) \<Rightarrow> Vertex \<Rightarrow> Weight \<Rightarrow> Edge list \<Rightarrow> Weight list \<Rightarrow> PQ \<Rightarrow> bool" where
  "dj_inner g s used u du seen ds pq =
     (length ds = nat (vertex_count g) \<and> ds ! nat s = Fin 0 \<and>
      dj_sound (set (all_entries g)) (vertex_count g) s ds used \<and>
      dj_queued (vertex_count g) ds pq used \<and>
      dj_bounds (vertex_count g) ds pq used \<and>
      (\<forall>u'. 0 \<le> u' \<longrightarrow> u' < vertex_count g \<longrightarrow> used u' \<longrightarrow> u' \<noteq> u \<longrightarrow>
            dj_relaxed ds u' (neighbors g u')) \<and>
      dj_relaxed ds u seen \<and>
      ds ! nat u = du \<and>
      (\<forall>u'. 0 \<le> u' \<longrightarrow> u' < vertex_count g \<longrightarrow> used u' \<longrightarrow> w_le (ds ! nat u') du))"

section \<open>Properties of the graph\<close>

lemma graph_inv_Graph_new: "0 \<le> n \<Longrightarrow> graph_inv (Graph_new n d)"
  by (simp add: graph_inv_def Graph_new_def list_all_length)

lemma add_edge_ok:
  assumes "0 \<le> u" "u < vertex_count g" "0 \<le> v" "v < vertex_count g"
  shows "add_edge g u v w =
     (g\<lparr>adj := (if \<not> is_directed g \<and> u \<noteq> v
                 then (adj g)[nat u := adj g ! nat u @ [Edge v w],
                              nat v := adj g ! nat v @ [Edge u w]]
                 else (adj g)[nat u := adj g ! nat u @ [Edge v w]])\<rparr>, None)"
proof -
  have "nat u \<noteq> nat v" if "u \<noteq> v"
    using that assms by simp
  then show ?thesis
    using assms by (simp add: add_edge_def Let_def)
qed

lemma list_all_update_append:
  assumes "list_all (list_all P) xs" "P e"
  shows "list_all (list_all P) (xs[i := xs ! i @ [e]])"
proof (cases "i < length xs")
  case True
  have "list_all P (xs ! i)"
    using assms(1) True by (simp add: list_all_length)
  then have new: "list_all P (xs ! i @ [e])"
    using assms(2) by simp
  have "list_all P es" if "es \<in> set (xs[i := xs ! i @ [e]])" for es
  proof -
    have "es = xs ! i @ [e] \<or> es \<in> set xs"
      using that set_update_subset_insert [of xs i "xs ! i @ [e]"] by auto
    then show ?thesis
      using new assms(1) by (auto simp: list_all_iff)
  qed
  then show ?thesis
    by (simp add: list_all_iff)
next
  case False
  then have "xs[i := xs ! i @ [e]] = xs"
    by (simp add: list_update_beyond)
  then show ?thesis using assms(1) by simp
qed

lemma graph_inv_add_edge:
  assumes "graph_inv g" "add_edge g u v w = (g', None)"
  shows "graph_inv g'"
proof -
  have r: "0 \<le> u" "u < vertex_count g" "0 \<le> v" "v < vertex_count g"
    using assms(2) by (auto simp: add_edge_def split: if_splits)
  let ?P = "\<lambda>e. 0 \<le> to e \<and> to e < vertex_count g"
  have a: "list_all (list_all ?P) (adj g)"
    using assms(1) by (simp add: graph_inv_def)
  have a1: "list_all (list_all ?P) ((adj g)[nat u := adj g ! nat u @ [Edge v w]])"
    using list_all_update_append [OF a, of "Edge v w" "nat u"] r by simp
  have nth1: "u \<noteq> v \<Longrightarrow>
      (adj g)[nat u := adj g ! nat u @ [Edge v w]] ! nat v = adj g ! nat v"
    using r by simp
  have a2: "u \<noteq> v \<Longrightarrow> list_all (list_all ?P)
      ((adj g)[nat u := adj g ! nat u @ [Edge v w], nat v := adj g ! nat v @ [Edge u w]])"
    using list_all_update_append [OF a1, of "Edge u w" "nat v"] r nth1 by simp
  have g': "g' = g\<lparr>adj := (if \<not> is_directed g \<and> u \<noteq> v
                 then (adj g)[nat u := adj g ! nat u @ [Edge v w],
                              nat v := adj g ! nat v @ [Edge u w]]
                 else (adj g)[nat u := adj g ! nat u @ [Edge v w]])\<rparr>"
    using add_edge_ok [OF r, of w] assms(2) by simp
  show ?thesis
    using assms(1) a1 a2 unfolding g' graph_inv_def by simp
qed

lemma sum_length_update_append:
  assumes "i < length xs"
  shows "sum_list (map length (xs[i := xs ! i @ [e]])) = Suc (sum_list (map length xs))"
proof -
  have "sum_list (map length (xs[i := xs ! i @ [e]]))
        = sum_list ((map length xs)[i := Suc (length (xs ! i))])"
    by (simp add: map_update)
  also have "\<dots> = sum_list (map length xs) + Suc (length (xs ! i)) - map length xs ! i"
    using assms by (simp add: sum_list_update)
  also have "\<dots> = Suc (sum_list (map length xs))"
    using assms by simp
  finally show ?thesis .
qed

lemma edge_count_total:
  assumes "length (adj g) = nat (vertex_count g)"
  shows "edge_count g = (if \<not> is_directed g then total_entries g div 2 else total_entries g)"
proof -
  have "map (\<lambda>i. length (adj g ! i)) [0..<length (adj g)]
        = map length (map (\<lambda>i. adj g ! i) [0..<length (adj g)])"
    by (simp add: comp_def)
  also have "\<dots> = map length (adj g)"
    by (simp only: map_nth)
  finally have "sum_list (map (\<lambda>i. length (adj g ! i)) [0..<nat (vertex_count g)])
        = total_entries g"
    unfolding total_entries_def assms by simp
  then show ?thesis
    unfolding edge_count_def Let_def by simp
qed

lemma total_entries_add_edge_undirected:
  assumes "graph_inv g" "\<not> is_directed g"
    and "0 \<le> u" "u < vertex_count g" "0 \<le> v" "v < vertex_count g" "u \<noteq> v"
  shows "total_entries (fst (add_edge g u v w)) = total_entries g + 2"
proof -
  have len: "nat u < length (adj g)" "nat v < length (adj g)"
    using assms by (simp_all add: graph_inv_def)
  have nth1: "(adj g)[nat u := adj g ! nat u @ [Edge v w]] ! nat v = adj g ! nat v"
    using assms by simp
  have "total_entries (fst (add_edge g u v w))
        = sum_list (map length ((adj g)[nat u := adj g ! nat u @ [Edge v w],
                                        nat v := adj g ! nat v @ [Edge u w]]))"
    using assms add_edge_ok [of u g v w] by (simp add: total_entries_def)
  also have "\<dots> = Suc (sum_list (map length ((adj g)[nat u := adj g ! nat u @ [Edge v w]])))"
    using sum_length_update_append [of "nat v" "(adj g)[nat u := adj g ! nat u @ [Edge v w]]" "Edge u w"]
      len nth1 by simp
  also have "\<dots> = Suc (Suc (sum_list (map length (adj g))))"
    using sum_length_update_append [OF len(1)] by simp
  finally show ?thesis by (simp add: total_entries_def)
qed

lemma add_edges_undirected_count:
  assumes "graph_inv g" "\<not> is_directed g"
    and "list_all (\<lambda>(a, b, c). 0 \<le> a \<and> a < vertex_count g \<and> 0 \<le> b \<and> b < vertex_count g \<and> a \<noteq> b) es"
  shows "\<exists>g'. add_edges g es = (g', None) \<and> graph_inv g' \<and> \<not> is_directed g' \<and>
     vertex_count g' = vertex_count g \<and> total_entries g' = total_entries g + 2 * length es"
  using assms
proof (induction es arbitrary: g)
  case Nil
  then show ?case by simp
next
  case (Cons x es)
  obtain u v w where x: "x = (u, v, w)" by (cases x)
  have r: "0 \<le> u" "u < vertex_count g" "0 \<le> v" "v < vertex_count g" "u \<noteq> v"
    using Cons.prems(3) x by simp_all
  obtain g1 where g1: "add_edge g u v w = (g1, None)"
    using add_edge_ok [OF r(1-4)] by blast
  have inv1: "graph_inv g1"
    using graph_inv_add_edge [OF Cons.prems(1) g1] .
  have same: "is_directed g1 = is_directed g" "vertex_count g1 = vertex_count g"
    using g1 add_edge_ok [OF r(1-4), of w] by auto
  have tot1: "total_entries g1 = total_entries g + 2"
    using total_entries_add_edge_undirected [OF Cons.prems(1,2) r, of w] g1 by simp
  have rest: "list_all (\<lambda>(a, b, c). 0 \<le> a \<and> a < vertex_count g1 \<and> 0 \<le> b \<and> b < vertex_count g1 \<and> a \<noteq> b) es"
    using Cons.prems(3) same by simp
  obtain g' where g': "add_edges g1 es = (g', None)" "graph_inv g'" "\<not> is_directed g'"
      "vertex_count g' = vertex_count g1" "total_entries g' = total_entries g1 + 2 * length es"
    using Cons.IH [OF inv1 _ rest] same Cons.prems(2) by auto
  show ?case
    using g' g1 x same tot1 by simp
qed

lemma total_entries_Graph_new: "total_entries (Graph_new n d) = 0"
  by (simp add: total_entries_def Graph_new_def)

section \<open>Properties of the loops and of the prologue\<close>

lemma for_each_append:
  "for_each body (xs @ ys) s =
     (case for_each body xs s of Inl e \<Rightarrow> Inl e | Inr s' \<Rightarrow> for_each body ys s')"
  by (induction xs arbitrary: s) (auto split: sum.splits)

lemma for_each_snoc:
  "for_each body (xs @ [x]) s =
     (case for_each body xs s of Inl e \<Rightarrow> Inl e | Inr s' \<Rightarrow> body x s')"
  by (simp add: for_each_append split: sum.splits)

lemma for_each_inv:
  assumes "I s"
    and "\<And>x s. x \<in> set xs \<Longrightarrow> I s \<Longrightarrow> \<exists>s'. body x s = Inr s' \<and> I s'"
  shows "\<exists>s'. for_each body xs s = Inr s' \<and> I s'"
  using assms
proof (induction xs arbitrary: s)
  case Nil
  then show ?case by simp
next
  case (Cons x xs)
  obtain s1 where s1: "body x s = Inr s1" "I s1"
    using Cons.prems(2) [of x s] Cons.prems(1) by auto
  have "\<exists>s'. for_each body xs s1 = Inr s' \<and> I s'"
    using Cons.IH [OF s1(2)] Cons.prems(2) by simp
  then show ?case
    using s1 by simp
qed

lemma upto_n_Suc: "upto_n (int (Suc k)) = upto_n (int k) @ [int k]"
  unfolding upto_n_def nat_int by simp

lemma fill_step:
  assumes "k < length d"
  shows "(replicate k x @ drop k d)[k := x] = replicate (Suc k) x @ drop (Suc k) d"
proof -
  have "drop k d = d ! k # drop (Suc k) d"
    using assms by (simp add: Cons_nth_drop_Suc)
  then have "(replicate k x @ drop k d)[k := x] = replicate k x @ x # drop (Suc k) d"
    by (simp add: list_update_append)
  also have "\<dots> = (replicate k x @ [x]) @ drop (Suc k) d"
    by simp
  also have "\<dots> = replicate (Suc k) x @ drop (Suc k) d"
    by (simp only: replicate_append_same replicate_Suc)
  finally show ?thesis .
qed

lemma init_loop:
  assumes "k \<le> length (dist res)" "length (parent res) = length (dist res)"
  shows "for_each init_step (upto_n (int k)) res =
     Inr (res\<lparr>dist := replicate k INFTY @ drop k (dist res),
              parent := replicate k (- 1) @ drop k (parent res)\<rparr>)"
  using assms
proof (induction k)
  case 0
  then show ?case by (simp add: upto_n_def)
next
  case (Suc k)
  let ?d = "replicate k INFTY @ drop k (dist res)"
  let ?p = "replicate k (- 1) @ drop k (parent res)"
  have d: "?d[k := INFTY] = replicate (Suc k) INFTY @ drop (Suc k) (dist res)"
    using Suc.prems by (intro fill_step) simp
  have p: "?p[k := - 1] = replicate (Suc k) (- 1) @ drop (Suc k) (parent res)"
    using Suc.prems by (intro fill_step) simp
  have step: "init_step (int k) (res\<lparr>dist := ?d, parent := ?p\<rparr>) =
      Inr (res\<lparr>dist := ?d[k := INFTY], parent := ?p[k := - 1]\<rparr>)"
    using Suc.prems by (simp add: init_step_def da_Set_def)
  have "for_each init_step (upto_n (int (Suc k))) res =
      init_step (int k) (res\<lparr>dist := ?d, parent := ?p\<rparr>)"
    using Suc by (simp add: upto_n_Suc for_each_snoc del: of_nat_Suc)
  then show ?case
    using step d p by (simp only:)
qed

lemma init_result_eq:
  assumes "0 \<le> n"
  shows "init_result n =
    Inr \<lparr>dist = replicate (nat n) INFTY, parent = replicate (nat n) (- 1),
         has_negative_cycle = False\<rparr>"
  using init_loop [of "nat n"
      "\<lparr>dist = da_new n (Fin 0), parent = da_new n 0, has_negative_cycle = False\<rparr>"] assms
  by (simp add: init_result_def da_new_def)

lemma neighbors_in_range:
  assumes "graph_inv g" "0 \<le> u" "u < vertex_count g" "e \<in> set (neighbors g u)"
  shows "0 \<le> to e \<and> to e < vertex_count g"
proof -
  have "nat u < length (adj g)"
    using assms by (simp add: graph_inv_def)
  then have "adj g ! nat u \<in> set (adj g)"
    by simp
  then show ?thesis
    using assms(1,4) by (auto simp: graph_inv_def list_all_iff neighbors_def)
qed

section \<open>Properties of dijkstra\<close>

lemma Dequeue_nonempty: "q \<noteq> [] \<Longrightarrow> \<exists>u q'. Dequeue q = Inr (u, q')"
  by (cases q) (simp_all add: Dequeue_def Let_def)

lemma dijkstra_loop_empty:
  "IsEmpty pq \<Longrightarrow> dijkstra_loop g n (ds, ps, pq) used = Inr (ds, ps)"
  by (simp add: dijkstra_loop.simps)

lemma dijkstra_loop_skip:
  "\<not> IsEmpty pq \<Longrightarrow> Dequeue pq = Inr (u, pq1) \<Longrightarrow> u < 0 \<or> u \<ge> n \<or> used u \<Longrightarrow>
     dijkstra_loop g n (ds, ps, pq) used = dijkstra_loop g n (ds, ps, pq1) used"
  by (auto simp: dijkstra_loop.simps [of g n ds ps pq])

lemma dijkstra_loop_visit:
  "\<not> IsEmpty pq \<Longrightarrow> Dequeue pq = Inr (u, pq1) \<Longrightarrow> 0 \<le> u \<Longrightarrow> u < n \<Longrightarrow> \<not> used u \<Longrightarrow>
     dijkstra_loop g n (ds, ps, pq) used =
       (case for_each (dijkstra_relax u) (neighbors g u) (ds, ps, pq1) of
          Inl x \<Rightarrow> Inl x
        | Inr st' \<Rightarrow> dijkstra_loop g n st' (used(u := True)))"
  by (simp add: dijkstra_loop.simps [of g n ds ps pq])

text \<open>The induction that follows the loop, for a fixed graph and vertex count.\<close>

lemma dijkstra_loop_induct [consumes 0, case_names empty skip visit]:
  assumes empty: "\<And>ds ps pq used. IsEmpty pq \<Longrightarrow> P ds ps pq used"
    and skip: "\<And>ds ps pq used u pq1.
        \<not> IsEmpty pq \<Longrightarrow> Dequeue pq = Inr (u, pq1) \<Longrightarrow> u < 0 \<or> u \<ge> n \<or> used u \<Longrightarrow>
        P ds ps pq1 used \<Longrightarrow> P ds ps pq used"
    and visit: "\<And>ds ps pq used u pq1.
        \<not> IsEmpty pq \<Longrightarrow> Dequeue pq = Inr (u, pq1) \<Longrightarrow> 0 \<le> u \<Longrightarrow> u < n \<Longrightarrow> \<not> used u \<Longrightarrow>
        (\<And>ds' ps' pq'. for_each (dijkstra_relax u) (neighbors g u) (ds, ps, pq1) = Inr (ds', ps', pq')
           \<Longrightarrow> P ds' ps' pq' (used(u := True))) \<Longrightarrow>
        P ds ps pq used"
  shows "P ds ps pq used"
proof -
  have "g' = g \<Longrightarrow> n' = n \<Longrightarrow> P ds ps pq used" for g' n'
  proof (induction g' n' "(ds, ps, pq)" used arbitrary: ds ps pq rule: dijkstra_loop.induct)
    case (1 g' n' ds ps pq used)
    have g: "g' = g" and n: "n' = n" by fact+
    note IH = "1.hyps" [unfolded g n]
    show ?case
    proof (cases "IsEmpty pq")
      case True
      then show ?thesis by (rule empty)
    next
      case False
      then obtain u pq1 where deq: "Dequeue pq = Inr (u, pq1)"
        using Dequeue_nonempty [of pq] by (auto simp: IsEmpty_def)
      show ?thesis
      proof (cases "u < 0 \<or> u \<ge> n")
        case True
        show ?thesis
        proof (rule skip [OF False deq])
          show "u < 0 \<or> u \<ge> n \<or> used u" using True by blast
          show "P ds ps pq1 used" by (rule IH(1) [OF False deq refl True refl refl])
        qed
      next
        case inr: False
        show ?thesis
        proof (cases "used u")
          case True
          show ?thesis
          proof (rule skip [OF False deq])
            show "u < 0 \<or> u \<ge> n \<or> used u" using True by blast
            show "P ds ps pq1 used" by (rule IH(2) [OF False deq refl inr True refl refl])
          qed
        next
          case nu: False
          show ?thesis
          proof (rule visit [of pq u pq1 used ds ps])
            show "\<not> IsEmpty pq" "Dequeue pq = Inr (u, pq1)" "\<not> used u"
              by fact+
            show "0 \<le> u" "u < n" using inr by auto
          next
            fix ds' ps' pq'
            assume "for_each (dijkstra_relax u) (neighbors g u) (ds, ps, pq1) = Inr (ds', ps', pq')"
            then show "P ds' ps' pq' (used(u := True))"
              by (rule IH(3) [OF False deq refl inr nu _ refl refl])
          qed
        qed
      qed
    qed
  qed
  then show ?thesis by simp
qed

lemma dijkstra_relax_ok:
  assumes "length ds = nat n" "length ps = nat n" "0 \<le> u" "u < n" "0 \<le> to e" "to e < n"
  shows "\<exists>ds' ps' pq'. dijkstra_relax u e (ds, ps, pq) = Inr (ds', ps', pq') \<and>
           length ds' = nat n \<and> length ps' = nat n"
  using assms
  by (auto simp: dijkstra_relax_def da_Get_def da_Set_def Let_def)

lemma dijkstra_relax_all_ok:
  assumes "length ds = nat n" "length ps = nat n" "0 \<le> u" "u < n"
    and "\<And>e. e \<in> set es \<Longrightarrow> 0 \<le> to e \<and> to e < n"
  shows "\<exists>ds' ps' pq'. for_each (dijkstra_relax u) es (ds, ps, pq) = Inr (ds', ps', pq') \<and>
           length ds' = nat n \<and> length ps' = nat n"
proof -
  let ?I = "\<lambda>st :: dijkstra_state. case st of (ds, ps, pq) \<Rightarrow> length ds = nat n \<and> length ps = nat n"
  have "\<exists>s'. for_each (dijkstra_relax u) es (ds, ps, pq) = Inr s' \<and> ?I s'"
  proof (rule for_each_inv)
    show "?I (ds, ps, pq)" using assms by simp
  next
    fix e s assume e: "e \<in> set es" and s: "?I s"
    obtain a b c where abc: "s = (a, b, c)" by (cases s)
    show "\<exists>s'. dijkstra_relax u e s = Inr s' \<and> ?I s'"
      using dijkstra_relax_ok [of a n b u e c] s assms(3,4) assms(5) [OF e]
      unfolding abc by auto
  qed
  then show ?thesis by auto
qed

lemma dijkstra_loop_ok:
  assumes "graph_inv g" "n = vertex_count g" "length ds = nat n" "length ps = nat n"
  shows "\<exists>ds' ps'. dijkstra_loop g n (ds, ps, pq) used = Inr (ds', ps') \<and>
           length ds' = nat n \<and> length ps' = nat n"
  using assms(3,4)
proof (induction ds ps pq used rule: dijkstra_loop_induct [where n = n and g = g])
  case (empty ds ps pq used)
  then show ?case by (simp add: dijkstra_loop_empty)
next
  case (skip ds ps pq used u pq1)
  have "dijkstra_loop g n (ds, ps, pq) used = dijkstra_loop g n (ds, ps, pq1) used"
    using skip.hyps by (intro dijkstra_loop_skip)
  then show ?case using skip.IH skip.prems by simp
next
  case (visit ds ps pq used u pq1)
  obtain ds1 ps1 pq2 where st: "for_each (dijkstra_relax u) (neighbors g u) (ds, ps, pq1) = Inr (ds1, ps1, pq2)"
      "length ds1 = nat n" "length ps1 = nat n"
    using dijkstra_relax_all_ok [of ds n ps u "neighbors g u" pq1]
      neighbors_in_range [OF assms(1), of u] assms(2) visit.hyps visit.prems by auto
  have "dijkstra_loop g n (ds, ps, pq) used = dijkstra_loop g n (ds1, ps1, pq2) (used(u := True))"
    using visit.hyps st(1) by (simp add: dijkstra_loop_visit [of pq u pq1])
  then show ?case
    using visit.IH [OF st] by (simp only:)
qed

lemma dijkstra_ok:
  assumes "graph_inv g"
  shows "\<exists>r. dijkstra g source = Inr r \<and> length (dist r) = nat (vertex_count g) \<and>
           length (parent r) = nat (vertex_count g) \<and> \<not> has_negative_cycle r"
proof (cases "source < 0 \<or> source \<ge> vertex_count g")
  case True
  then show ?thesis
    using assms by (auto simp: dijkstra_def init_result_eq Let_def graph_inv_def)
next
  case False
  have n: "0 \<le> vertex_count g" using assms by (simp add: graph_inv_def)
  obtain ds' ps' where l: "dijkstra_loop g (vertex_count g)
       ((replicate (nat (vertex_count g)) INFTY)[nat source := Fin 0],
        replicate (nat (vertex_count g)) (- 1), Enqueue pq_new source (Fin 0)) (\<lambda>i. False) = Inr (ds', ps')"
     "length ds' = nat (vertex_count g)" "length ps' = nat (vertex_count g)"
    using dijkstra_loop_ok [OF assms refl, of "(replicate (nat (vertex_count g)) INFTY)[nat source := Fin 0]"
        "replicate (nat (vertex_count g)) (- 1)" "Enqueue pq_new source (Fin 0)" "\<lambda>i. False"]
    by auto
  show ?thesis
    using False n l by (simp add: dijkstra_def init_result_eq Let_def da_Set_def)
qed

lemma dijkstra_relax_negative:
  "w_less (weight e) (Fin 0) \<Longrightarrow> dijkstra_relax u e st = Inr st"
  by (cases st) (simp add: dijkstra_relax_def)

lemma dijkstra_relax_all_filter:
  "for_each (dijkstra_relax u) (filter (\<lambda>e. \<not> w_less (weight e) (Fin 0)) es) st =
   for_each (dijkstra_relax u) es st"
  by (induction es arbitrary: st) (auto simp: dijkstra_relax_negative split: sum.splits)

lemma neighbors_drop_negative:
  assumes "length (adj g) = nat (vertex_count g)" "0 \<le> u" "u < vertex_count g"
  shows "neighbors (drop_negative g) u =
           filter (\<lambda>e. \<not> w_less (weight e) (Fin 0)) (neighbors g u)"
  using assms by (simp add: neighbors_def drop_negative_def)

lemma dijkstra_loop_drop_negative:
  assumes "length (adj g) = nat (vertex_count g)"
  shows "dijkstra_loop (drop_negative g) (vertex_count g) (ds, ps, pq) used =
         dijkstra_loop g (vertex_count g) (ds, ps, pq) used"
proof (induction ds ps pq used rule: dijkstra_loop_induct [where n = "vertex_count g" and g = g])
  case (empty ds ps pq used)
  then show ?case by (simp add: dijkstra_loop_empty)
next
  case (skip ds ps pq used u pq1)
  have "dijkstra_loop g (vertex_count g) (ds, ps, pq) used =
        dijkstra_loop g (vertex_count g) (ds, ps, pq1) used"
    using skip.hyps by (intro dijkstra_loop_skip)
  moreover have "dijkstra_loop (drop_negative g) (vertex_count g) (ds, ps, pq) used =
        dijkstra_loop (drop_negative g) (vertex_count g) (ds, ps, pq1) used"
    using skip.hyps by (intro dijkstra_loop_skip)
  ultimately show ?case using skip.IH by simp
next
  case (visit ds ps pq used u pq1)
  let ?r = "for_each (dijkstra_relax u) (neighbors g u) (ds, ps, pq1)"
  have same: "for_each (dijkstra_relax u) (neighbors (drop_negative g) u) (ds, ps, pq1) = ?r"
    using neighbors_drop_negative [OF assms, of u] visit.hyps
    by (simp add: dijkstra_relax_all_filter)
  have a: "dijkstra_loop g (vertex_count g) (ds, ps, pq) used =
      (case ?r of Inl x \<Rightarrow> Inl x
       | Inr st' \<Rightarrow> dijkstra_loop g (vertex_count g) st' (used(u := True)))"
    using visit.hyps by (intro dijkstra_loop_visit)
  have b: "dijkstra_loop (drop_negative g) (vertex_count g) (ds, ps, pq) used =
      (case ?r of Inl x \<Rightarrow> Inl x
       | Inr st' \<Rightarrow> dijkstra_loop (drop_negative g) (vertex_count g) st' (used(u := True)))"
    using dijkstra_loop_visit [where used = used and g = "drop_negative g" and ds = ds and ps = ps,
        OF visit.hyps(1-5)]
    by (simp only: same)
  show ?case
  proof (cases ?r)
    case (Inl x)
    then show ?thesis using a b by simp
  next
    case (Inr st')
    obtain ds' ps' pq' where st': "st' = (ds', ps', pq')" by (cases st')
    have ih: "dijkstra_loop (drop_negative g) (vertex_count g) st' (used(u := True)) =
        dijkstra_loop g (vertex_count g) st' (used(u := True))"
      unfolding st' by (rule visit.IH) (simp only: Inr st')
    show ?thesis
      unfolding a b Inr by (simp only: sum.case ih)
  qed
qed

lemma dijkstra_drop_negative:
  assumes "length (adj g) = nat (vertex_count g)"
  shows "dijkstra (drop_negative g) source = dijkstra g source"
proof -
  have vc: "vertex_count (drop_negative g) = vertex_count g"
    by (simp add: drop_negative_def)
  show ?thesis
    unfolding dijkstra_def vc Let_def
    by (simp only: dijkstra_loop_drop_negative [OF assms])
qed

section \<open>Properties of bellman_ford\<close>

lemma fold_bf_store:
  "fold (bf_store m u) es acc =
     acc @ take (m - length acc) (map (\<lambda>e. BFEdge u (to e) (weight e)) es)"
proof (induction es arbitrary: acc)
  case Nil
  then show ?case by simp
next
  case (Cons e es)
  show ?case
  proof (cases "length acc < m")
    case True
    then have "m - length acc = Suc (m - Suc (length acc))"
      by simp
    then show ?thesis
      using True Cons.IH [of "acc @ [BFEdge u (to e) (weight e)]"]
      by (simp add: bf_store_def)
  next
    case False
    then show ?thesis
      using Cons.IH [of acc] by (simp add: bf_store_def)
  qed
qed

lemma fold_fold_bf_store:
  "fold (\<lambda>u es. fold (bf_store m u) (f u) es) us acc =
     acc @ take (m - length acc)
             (concat (map (\<lambda>u. map (\<lambda>e. BFEdge u (to e) (weight e)) (f u)) us))"
proof (induction us arbitrary: acc)
  case Nil
  then show ?case by simp
next
  case (Cons u us)
  let ?X = "map (\<lambda>e. BFEdge u (to e) (weight e)) (f u)"
  let ?Y = "concat (map (\<lambda>u. map (\<lambda>e. BFEdge u (to e) (weight e)) (f u)) us)"
  let ?acc' = "acc @ take (m - length acc) ?X"
  have "m - length ?acc' = m - length acc - length ?X"
    by (simp add: min_def)
  then have "?acc' @ take (m - length ?acc') ?Y = acc @ take (m - length acc) (?X @ ?Y)"
    by (simp only: take_append append_assoc)
  then show ?case
    using Cons.IH [of ?acc'] by (simp add: fold_bf_store)
qed

lemma bf_edges_take: "bf_edges g = take (edge_count g) (all_entries g)"
  using fold_fold_bf_store [of "edge_count g" "neighbors g" "upto_n (vertex_count g)" "[]"]
  by (simp add: bf_edges_def all_entries_def Let_def)

lemma all_entries_in_range:
  assumes "graph_inv g" "e \<in> set (all_entries g)"
  shows "0 \<le> bf_u e \<and> bf_u e < vertex_count g \<and> 0 \<le> bf_v e \<and> bf_v e < vertex_count g"
proof -
  obtain u x where u: "u \<in> set (upto_n (vertex_count g))" and x: "x \<in> set (neighbors g u)"
    and e: "e = BFEdge u (to x) (weight x)"
    using assms(2) by (auto simp: all_entries_def)
  have ur: "0 \<le> u" "u < vertex_count g"
    using u by (auto simp: upto_n_def)
  show ?thesis
    using neighbors_in_range [OF assms(1) ur x] ur e by simp
qed

lemma bf_edges_in_range:
  assumes "graph_inv g" "e \<in> set (bf_edges g)"
  shows "0 \<le> bf_u e \<and> bf_u e < vertex_count g \<and> 0 \<le> bf_v e \<and> bf_v e < vertex_count g"
  using all_entries_in_range [OF assms(1), of e] assms(2) set_take_subset [of "edge_count g" "all_entries g"]
  by (auto simp: bf_edges_take)

lemma length_all_entries:
  assumes "length (adj g) = nat (vertex_count g)"
  shows "length (all_entries g) = total_entries g"
proof -
  have "map (\<lambda>u. length (neighbors g u)) (upto_n (vertex_count g))
        = map length (map (\<lambda>i. adj g ! i) [0..<length (adj g)])"
    using assms by (simp add: upto_n_def neighbors_def comp_def)
  also have "\<dots> = map length (adj g)"
    by (simp only: map_nth)
  finally show ?thesis
    by (simp add: all_entries_def total_entries_def length_concat comp_def)
qed

text \<open>On a directed graph the edge list is the full flattening.\<close>

lemma bf_edges_directed:
  assumes "length (adj g) = nat (vertex_count g)" "is_directed g"
  shows "bf_edges g = all_entries g"
  using assms length_all_entries [OF assms(1)] edge_count_total [OF assms(1)]
  by (simp add: bf_edges_take)

lemma bf_relax_ok:
  assumes "length ds = nat n" "length ps = nat n"
    and "0 \<le> bf_u e" "bf_u e < n" "0 \<le> bf_v e" "bf_v e < n"
  shows "\<exists>ds' ps' c'. bf_relax e (ds, ps, c) = Inr (ds', ps', c') \<and>
           length ds' = nat n \<and> length ps' = nat n"
  using assms by (auto simp: bf_relax_def da_Get_def da_Set_def)

lemma bf_pass_ok:
  assumes "length ds = nat n" "length ps = nat n"
    and "\<And>e. e \<in> set es \<Longrightarrow> 0 \<le> bf_u e \<and> bf_u e < n \<and> 0 \<le> bf_v e \<and> bf_v e < n"
  shows "\<exists>ds' ps' c'. for_each bf_relax es (ds, ps, c) = Inr (ds', ps', c') \<and>
           length ds' = nat n \<and> length ps' = nat n"
proof -
  let ?I = "\<lambda>st :: Weight list \<times> Vertex list \<times> bool.
      case st of (ds, ps, c) \<Rightarrow> length ds = nat n \<and> length ps = nat n"
  have "\<exists>s'. for_each bf_relax es (ds, ps, c) = Inr s' \<and> ?I s'"
  proof (rule for_each_inv)
    show "?I (ds, ps, c)" using assms by simp
  next
    fix e s assume e: "e \<in> set es" and s: "?I s"
    obtain a b c where abc: "s = (a, b, c)" by (cases s)
    show "\<exists>s'. bf_relax e s = Inr s' \<and> ?I s'"
      using bf_relax_ok [of a n b e c] s assms(3) [OF e]
      unfolding abc by auto
  qed
  then show ?thesis by auto
qed

lemma bf_passes_ok:
  assumes "length ds = nat n" "length ps = nat n"
    and "\<And>e. e \<in> set es \<Longrightarrow> 0 \<le> bf_u e \<and> bf_u e < n \<and> 0 \<le> bf_v e \<and> bf_v e < n"
  shows "\<exists>ds' ps'. bf_passes k es (ds, ps) = Inr (ds', ps') \<and>
           length ds' = nat n \<and> length ps' = nat n"
  using assms(1,2)
proof (induction k arbitrary: ds ps)
  case 0
  then show ?case by simp
next
  case (Suc k)
  obtain ds1 ps1 c1 where p: "for_each bf_relax es (ds, ps, False) = Inr (ds1, ps1, c1)"
      "length ds1 = nat n" "length ps1 = nat n"
    using bf_pass_ok [OF Suc.prems assms(3), of es False] by auto
  show ?case
    using p Suc.IH [OF p(2,3)] by simp
qed

lemma bf_detect_eq:
  assumes "length ds = nat n"
    and "\<And>e. e \<in> set es \<Longrightarrow> 0 \<le> bf_u e \<and> bf_u e < n \<and> 0 \<le> bf_v e \<and> bf_v e < n"
  shows "bf_detect es ds = Inr (\<exists>e\<in>set es. can_relax ds e)"
  using assms(2)
proof (induction es)
  case Nil
  then show ?case by simp
next
  case (Cons e es)
  have r: "0 \<le> bf_u e" "bf_u e < n" "0 \<le> bf_v e" "bf_v e < n"
    using Cons.prems [of e] by simp_all
  have ih: "bf_detect es ds = Inr (\<exists>e\<in>set es. can_relax ds e)"
    using Cons.IH Cons.prems by simp
  show ?case
    using r assms(1) ih by (simp add: da_Get_def can_relax_def)
qed

lemma bellman_ford_ok:
  assumes "graph_inv g" "0 \<le> source" "source < vertex_count g"
  shows "\<exists>d p. bf_passes (nat (vertex_count g - 1)) (bf_edges g)
                 ((replicate (nat (vertex_count g)) INFTY)[nat source := Fin 0],
                  replicate (nat (vertex_count g)) (- 1)) = Inr (d, p) \<and>
           length d = nat (vertex_count g) \<and> length p = nat (vertex_count g) \<and>
           bellman_ford g source =
             Inr \<lparr>dist = d, parent = p,
                  has_negative_cycle = (\<exists>e\<in>set (bf_edges g). can_relax d e)\<rparr>"
proof -
  let ?n = "vertex_count g"
  have n: "0 \<le> ?n" using assms(1) by (simp add: graph_inv_def)
  obtain d p where dp: "bf_passes (nat (?n - 1)) (bf_edges g)
       ((replicate (nat ?n) INFTY)[nat source := Fin 0], replicate (nat ?n) (- 1)) = Inr (d, p)"
     "length d = nat ?n" "length p = nat ?n"
    using bf_passes_ok [of "(replicate (nat ?n) INFTY)[nat source := Fin 0]" ?n
        "replicate (nat ?n) (- 1)" "bf_edges g" "nat (?n - 1)"]
      bf_edges_in_range [OF assms(1)] by auto
  have det: "bf_detect (bf_edges g) d = Inr (\<exists>e\<in>set (bf_edges g). can_relax d e)"
    using bf_detect_eq [OF dp(2), of "bf_edges g"] bf_edges_in_range [OF assms(1)] by blast
  have "bellman_ford g source =
      Inr \<lparr>dist = d, parent = p, has_negative_cycle = (\<exists>e\<in>set (bf_edges g). can_relax d e)\<rparr>"
    using assms(2,3) n dp(1) det
    by (simp add: bellman_ford_def init_result_eq Let_def da_Set_def)
  then show ?thesis
    using dp by blast
qed

lemma bellman_ford_returns:
  assumes "graph_inv g"
  shows "\<exists>r. bellman_ford g source = Inr r \<and> length (dist r) = nat (vertex_count g) \<and>
           length (parent r) = nat (vertex_count g)"
proof (cases "source < 0 \<or> source \<ge> vertex_count g")
  case True
  then show ?thesis
    using assms by (auto simp: bellman_ford_def init_result_eq Let_def graph_inv_def)
next
  case False
  then show ?thesis
    using bellman_ford_ok [OF assms, of source] by auto
qed

text \<open>A pass that ends with \<open>changed\<close> false has changed nothing.\<close>

lemma bf_relax_changed:
  assumes "bf_relax e (ds, ps, c) = Inr (ds', ps', c')"
  shows "(c \<longrightarrow> c') \<and> (\<not> c' \<longrightarrow> ds' = ds \<and> ps' = ps)"
  using assms
  by (auto simp: bf_relax_def split: sum.splits if_splits)

lemma bf_pass_changed:
  assumes "for_each bf_relax es (ds, ps, c) = Inr (ds', ps', c')"
  shows "(c \<longrightarrow> c') \<and> (\<not> c' \<longrightarrow> ds' = ds \<and> ps' = ps)"
  using assms
proof (induction es arbitrary: ds ps c)
  case Nil
  then show ?case by simp
next
  case (Cons e es)
  obtain ds1 ps1 c1 where s1: "bf_relax e (ds, ps, c) = Inr (ds1, ps1, c1)"
    and rest: "for_each bf_relax es (ds1, ps1, c1) = Inr (ds', ps', c')"
    using Cons.prems by (auto split: sum.splits)
  show ?case
    using bf_relax_changed [OF s1] Cons.IH [OF rest] by blast
qed

lemma bf_passes_full_fixpoint:
  assumes "for_each bf_relax es (ds, ps, False) = Inr (ds, ps, False)"
  shows "bf_passes_full k es (ds, ps) = Inr (ds, ps)"
  using assms by (induction k) simp_all

text \<open>The early exit of the main loop does not change its result.\<close>

lemma bf_passes_early_exit: "bf_passes k es (ds, ps) = bf_passes_full k es (ds, ps)"
proof (induction k arbitrary: ds ps)
  case 0
  then show ?case by simp
next
  case (Suc k)
  show ?case
  proof (cases "for_each bf_relax es (ds, ps, False)")
    case (Inl x)
    then show ?thesis by simp
  next
    case (Inr st)
    obtain ds' ps' c' where st: "st = (ds', ps', c')" by (cases st)
    show ?thesis
    proof (cases c')
      case True
      then show ?thesis using Inr st Suc.IH by simp
    next
      case False
      then have same: "ds' = ds" "ps' = ps"
        using bf_pass_changed [of es ds ps False ds' ps' c'] Inr st by simp_all
      then have "bf_passes_full k es (ds', ps') = Inr (ds', ps')"
        using bf_passes_full_fixpoint [of es ds ps k] Inr st False by simp
      then show ?thesis using Inr st False by simp
    qed
  qed
qed

section \<open>Properties of the comparator\<close>

lemma same_loop_eq:
  assumes "\<And>j. j \<in> set js \<Longrightarrow> 0 \<le> j \<and> j < int (length d) \<and> j < int (length b)"
  shows "same_loop d b js = Inr (\<forall>j\<in>set js. w_agree (d ! nat j) (b ! nat j))"
  using assms
proof (induction js)
  case Nil
  then show ?case by simp
next
  case (Cons j js)
  have r: "0 \<le> j" "j < int (length d)" "j < int (length b)"
    using Cons.prems [of j] by simp_all
  have ih: "same_loop d b js = Inr (\<forall>j\<in>set js. w_agree (d ! nat j) (b ! nat j))"
    using Cons.IH Cons.prems by simp
  show ?case
  proof (cases "d ! nat j")
    case (Fin x)
    then show ?thesis
      using r ih by (cases "b ! nat j") (simp_all add: da_Get_def Let_def not_less)
  next
    case INFTY
    then show ?thesis
      using r ih by (cases "b ! nat j") (simp_all add: da_Get_def Let_def)
  qed
qed

lemma same_loop_upto:
  assumes "length b = length d"
  shows "same_loop d b (upto_n (da_GetSize d)) = Inr (\<forall>i<length d. w_agree (d ! i) (b ! i))"
proof -
  have "same_loop d b (upto_n (da_GetSize d)) =
      Inr (\<forall>j\<in>set (upto_n (da_GetSize d)). w_agree (d ! nat j) (b ! nat j))"
    using assms by (intro same_loop_eq) (auto simp: upto_n_def da_GetSize_def)
  moreover have "(\<forall>j\<in>set (upto_n (da_GetSize d)). w_agree (d ! nat j) (b ! nat j)) =
      (\<forall>i<length d. w_agree (d ! i) (b ! i))"
    by (auto simp: upto_n_def da_GetSize_def)
  ultimately show ?thesis by simp
qed

section \<open>Properties of restore_path\<close>

lemma walk_to_none_in_range:
  "walk_to_none par source v k \<Longrightarrow> 0 \<le> v \<and> v < int (length par) \<and> v \<noteq> source"
  by (cases k) simp_all

lemma walk_to_none_none: "\<not> walk_to_none par source (- 1) k"
  using walk_to_none_in_range [of par source "- 1" k] by auto

lemma walk_to_none_unique:
  "walk_to_none par source v k \<Longrightarrow> walk_to_none par source v k' \<Longrightarrow> k = k'"
proof (induction k arbitrary: v k')
  case 0
  then show ?case by (cases k') (auto simp: walk_to_none_none)
next
  case (Suc k)
  show ?case
  proof (cases k')
    case 0
    then show ?thesis using Suc.prems by (auto simp: walk_to_none_none)
  next
    case (Suc j)
    then show ?thesis using Suc.prems Suc.IH [of "par ! nat v" j] by simp
  qed
qed

lemma walk_to_none_suffix:
  "walk_to_none par source v k \<Longrightarrow> j \<le> k \<Longrightarrow> \<exists>u. walk_to_none par source u j"
proof (induction k arbitrary: v)
  case 0
  then show ?case by auto
next
  case (Suc k)
  show ?case
  proof (cases "j = Suc k")
    case True
    then show ?thesis using Suc.prems(1) by blast
  next
    case False
    then have "j \<le> k" using Suc.prems(2) by simp
    moreover have "walk_to_none par source (par ! nat v) k"
      using Suc.prems(1) by simp
    ultimately show ?thesis using Suc.IH by blast
  qed
qed

text \<open>A walk that ends visits no vertex twice, so it is shorter than the array.\<close>

lemma walk_to_none_short:
  assumes "walk_to_none par source v k"
  shows "k < length par"
proof -
  have "\<forall>j\<in>{..k}. \<exists>u. walk_to_none par source u j"
    using walk_to_none_suffix [OF assms] by simp
  then obtain f where f: "\<And>j. j \<le> k \<Longrightarrow> walk_to_none par source (f j) j"
    by (metis atMost_iff)
  have inj: "inj_on f {..k}"
  proof (rule inj_onI)
    fix i j assume "i \<in> {..k}" "j \<in> {..k}" "f i = f j"
    then show "i = j"
      using f [of i] f [of j] walk_to_none_unique [of par source "f i" i j] by simp
  qed
  have sub: "f ` {..k} \<subseteq> {0..<int (length par)}"
    using f walk_to_none_in_range by fastforce
  have "card {..k} \<le> card {0..<int (length par)}"
    using inj sub by (intro card_inj_on_le) simp_all
  then show ?thesis by simp
qed

lemma restore_walk_to_none:
  assumes "walk_to_none par source v k" "0 \<le> len" "nat len + k < length rv"
  shows "\<exists>rv'. restore_walk par source v (rv, len) = Inr (rv', len + int k + 1) \<and>
           length rv' = length rv \<and> rv' ! (nat len + k) \<noteq> source"
  using assms
proof (induction k arbitrary: v rv len)
  case 0
  then have v: "0 \<le> v" "v < int (length par)" "v \<noteq> source" "par ! nat v = - 1"
    by simp_all
  have lr: "len < int (length rv)"
    using "0.prems"(2,3) by linarith
  have "restore_walk par source v (rv, len) = restore_walk par source (- 1) (rv[nat len := v], len + 1)"
    using v "0.prems"(2) lr
    by (simp add: restore_walk.simps [of par source v rv len] da_Set_def da_Get_def)
  also have "\<dots> = Inr (rv[nat len := v], len + 1)"
    by (simp add: restore_walk.simps [of par source "- 1"])
  finally show ?case
    using v "0.prems"(2,3) by simp
next
  case (Suc k)
  then have v: "0 \<le> v" "v < int (length par)" "v \<noteq> source"
      "walk_to_none par source (par ! nat v) k"
    by simp_all
  have lr: "len < int (length rv)"
    using Suc.prems(2,3) by linarith
  have step: "restore_walk par source v (rv, len) =
      restore_walk par source (par ! nat v) (rv[nat len := v], len + 1)"
    using v Suc.prems(2) lr
    by (simp add: restore_walk.simps [of par source v rv len] da_Set_def da_Get_def)
  have "nat (len + 1) + k < length (rv[nat len := v])"
    using Suc.prems(2,3) by simp
  then obtain rv' where rv': "restore_walk par source (par ! nat v) (rv[nat len := v], len + 1) =
        Inr (rv', len + 1 + int k + 1)"
      "length rv' = length (rv[nat len := v])" "rv' ! (nat (len + 1) + k) \<noteq> source"
    using Suc.IH [OF v(4), of "len + 1" "rv[nat len := v]"] Suc.prems(2) by auto
  have "nat (len + 1) + k = nat len + Suc k"
    using Suc.prems(2) by simp
  then show ?case
    using step rv' by simp
qed

lemma restore_path_out_of_range:
  "target < 0 \<or> int (length par) \<le> target \<Longrightarrow> restore_path source target par = Inr []"
  by (auto simp: restore_path_def da_GetSize_def Let_def)

lemma restore_path_unreachable:
  assumes "walk_to_none par source target k"
  shows "restore_path source target par = Inr []"
proof -
  have t: "0 \<le> target" "target < int (length par)" "target \<noteq> source"
    using walk_to_none_in_range [OF assms] by simp_all
  have k: "k < length par"
    using walk_to_none_short [OF assms] .
  obtain rv' where rv': "restore_walk par source target (da_new (int (length par)) 0, 0) =
        Inr (rv', int k + 1)" "length rv' = length par" "rv' ! k \<noteq> source"
    using restore_walk_to_none [OF assms, of 0 "da_new (int (length par)) 0"] k
    by (auto simp: da_new_def)
  show ?thesis
    using t rv' k
    by (simp add: restore_path_def da_GetSize_def Let_def da_Get_def)
qed

lemma restore_path_self:
  assumes "0 \<le> source" "source < int (length par)"
  shows "restore_path source source par = Inr [source]"
proof -
  let ?rv = "da_new (int (length par)) (0 :: Vertex)"
  have "0 < int (length par)" using assms by linarith
  then have l: "0 < length par" by simp
  have w: "restore_walk par source source (?rv, 0) = Inr (?rv[0 := source], 1)"
    using assms l by (simp add: restore_walk.simps [of par source source] da_Set_def da_new_def)
  have c: "for_each (restore_copy (?rv[0 := source]) 1) (upto_n 1) (da_new 1 0) = Inr [source]"
    using l by (simp add: upto_n_def restore_copy_def da_Get_def da_Set_def da_new_def)
  show ?thesis
    using assms l w c
    by (simp add: restore_path_def da_GetSize_def Let_def da_Get_def da_new_def)
qed

section \<open>Properties of generate_random_graph\<close>











text \<open>
  The hypothesis of \<open>generate_random_graph_zero\<close> on the draws is used: the test of the loop
  is \<open>prob_dist(gen) <= edge_probability\<close>, so a draw equal to \<open>0\<close> passes it at edge
  probability \<open>0\<close>. Here the first value of the sequence is \<open>0\<close> and the later ones are
  \<open>1/2\<close>.
\<close>

lemma generate_random_graph_zero_draw:
  "generate_random_graph 2 0 1 2 True (\<lambda>i. if i = 0 then 0 else 1 / 2) =
     Inr \<lparr>vertex_count = 2, is_directed = True, adj = [[Edge 1 (Fin (3 / 2))], []]\<rparr>"
  by code_simp

section \<open>Agreement of dijkstra and bellman_ford where the edge list is complete\<close>

subsection \<open>Weights and walks\<close>

lemma w_le_simps [simp]:
  "w_le (Fin x) (Fin y) = (x \<le> y)"
  "w_le a INFTY"
  "w_le INFTY a = (a = INFTY)"
  by (cases a; simp add: w_le_def not_less)+

lemma w_le_refl [simp]: "w_le a a"
  by (cases a) simp_all

lemma w_le_trans: "w_le a b \<Longrightarrow> w_le b c \<Longrightarrow> w_le a c"
  by (cases a; cases b; cases c) simp_all

lemma w_le_antisym: "w_le a b \<Longrightarrow> w_le b a \<Longrightarrow> a = b"
  by (cases a; cases b) simp_all

lemma w_less_imp_le: "w_less a b \<Longrightarrow> w_le a b"
  by (cases a; cases b) simp_all

lemma w_less_le_trans: "w_less a b \<Longrightarrow> w_le b c \<Longrightarrow> w_less a c"
  by (cases a; cases b; cases c) simp_all

lemma w_le_total: "w_le a b \<or> w_le b a"
  by (cases a; cases b) auto

lemma w_add_mono: "w_le a b \<Longrightarrow> w_le (w_add a w) (w_add b w)"
  by (cases a; cases b; cases w) simp_all

lemma w_add_nonneg: "\<not> w_less w (Fin 0) \<Longrightarrow> w_le a (w_add a w)"
  by (cases a; cases w) simp_all

lemma w_less_Fin_iff: "w_less (Fin x) b = (\<forall>y. b = Fin y \<longrightarrow> x < y)"
  by (cases b) simp_all

lemma walk_zero: "walk E s v x 0 \<Longrightarrow> v = s \<and> x = 0"
  by (cases rule: walk.cases) auto

lemma walk_Suc:
  "walk E s v x (Suc k) \<Longrightarrow> \<exists>u y w. walk E s u y k \<and> BFEdge u v (Fin w) \<in> E \<and> x = y + w"
  by (cases rule: walk.cases) auto

lemma walk_nonneg:
  assumes "\<And>e. e \<in> E \<Longrightarrow> \<not> w_less (bf_w e) (Fin 0)"
  shows "walk E s v x k \<Longrightarrow> 0 \<le> x"
proof (induction rule: walk.induct)
  case walk_start
  then show ?case by simp
next
  case (walk_step u x k v w)
  then show ?case using assms [of "BFEdge u v (Fin w)"] by simp
qed

text \<open>
  Distances at which no edge can be relaxed and the source is at \<open>0\<close> are below the weight
  of every walk.
\<close>

lemma stable_below_walks:
  assumes "ds ! nat s = Fin 0" "\<And>e. e \<in> E \<Longrightarrow> \<not> can_relax ds e"
  shows "walk E s v x k \<Longrightarrow> \<exists>y. ds ! nat v = Fin y \<and> y \<le> x"
proof (induction rule: walk.induct)
  case walk_start
  then show ?case using assms(1) by simp
next
  case (walk_step u x k v w)
  then obtain y where y: "ds ! nat u = Fin y" "y \<le> x" by blast
  have "\<not> w_less (Fin (y + w)) (ds ! nat v)"
    using assms(2) [OF walk_step.hyps(2)] y(1) by (simp add: can_relax_def)
  then obtain z where "ds ! nat v = Fin z" "z \<le> y + w"
    by (cases "ds ! nat v") (simp_all add: not_less)
  then show ?case using y(2) by auto
qed
subsection \<open>The passes of bellman_ford\<close>

lemma nat_less_length: "0 \<le> v \<Longrightarrow> v < int n \<Longrightarrow> nat v < n"
  by linarith

lemma w_less_irrefl [simp]: "\<not> w_less a a"
  by (cases a) simp_all

lemma walk_in_range:
  assumes "0 \<le> s" "s < n" "\<And>e. e \<in> E \<Longrightarrow> 0 \<le> bf_v e \<and> bf_v e < n"
  shows "walk E s v x k \<Longrightarrow> 0 \<le> v \<and> v < n"
proof (induction rule: walk.induct)
  case walk_start
  then show ?case using assms(1,2) by simp
next
  case (walk_step u x k v w)
  then show ?case using assms(3) [of "BFEdge u v (Fin w)"] by simp
qed

lemma bf_relax_step:
  assumes "bf_relax e (ds, ps, c) = Inr (ds', ps', c')"
    and "0 \<le> bf_u e" "bf_u e < int (length ds)" "0 \<le> bf_v e" "bf_v e < int (length ds)"
  shows "length ds' = length ds"
    and "\<And>i. i < length ds \<Longrightarrow> w_le (ds' ! i) (ds ! i)"
    and "w_le (ds' ! nat (bf_v e)) (w_add (ds ! nat (bf_u e)) (bf_w e))"
    and "\<And>i. i < length ds \<Longrightarrow> ds' ! i \<noteq> ds ! i \<Longrightarrow>
           i = nat (bf_v e) \<and> ds' ! i = w_add (ds ! nat (bf_u e)) (bf_w e) \<and> ds ! nat (bf_u e) \<noteq> INFTY"
proof -
  let ?du = "ds ! nat (bf_u e)" and ?dv = "ds ! nat (bf_v e)"
  let ?nd = "w_add ?du (bf_w e)"
  have v: "nat (bf_v e) < length ds" using assms(4,5) by (rule nat_less_length)
  have cases: "(ds' = ds) \<and> (?du = INFTY \<or> \<not> w_less ?nd ?dv) \<or>
      (ds' = ds[nat (bf_v e) := ?nd] \<and> ?du \<noteq> INFTY \<and> w_less ?nd ?dv)"
    using assms by (auto simp: bf_relax_def da_Get_def da_Set_def split: if_splits)
  show "length ds' = length ds"
    using cases by auto
  show "w_le (ds' ! nat (bf_v e)) ?nd"
    using cases v by (auto simp: w_le_def)
  show "w_le (ds' ! i) (ds ! i)" if "i < length ds" for i
  proof (cases "ds' = ds")
    case True
    then show ?thesis by simp
  next
    case False
    then have up: "ds' = ds[nat (bf_v e) := ?nd]" and lt: "w_less ?nd ?dv"
      using cases by auto
    show ?thesis
    proof (cases "i = nat (bf_v e)")
      case True
      then show ?thesis using up lt that v by (simp add: w_less_imp_le)
    next
      case False
      then show ?thesis using up by simp
    qed
  qed
  show "i = nat (bf_v e) \<and> ds' ! i = ?nd \<and> ?du \<noteq> INFTY"
    if "i < length ds" "ds' ! i \<noteq> ds ! i" for i
    using cases that v by (auto simp: nth_list_update split: if_splits)
qed

lemma bf_relax_sound:
  assumes "bf_relax e (ds, ps, c) = Inr (ds', ps', c')"
    and "0 \<le> bf_u e" "bf_u e < int (length ds)" "0 \<le> bf_v e" "bf_v e < int (length ds)"
    and "e \<in> E" "sound E s ds"
  shows "sound E s ds'"
  unfolding sound_def
proof (intro allI impI)
  fix i x assume i: "i < length ds'" and x: "ds' ! i = Fin x"
  have len: "length ds' = length ds"
    using bf_relax_step(1) [OF assms(1-5)] .
  show "\<exists>k. walk E s (int i) x k"
  proof (cases "ds' ! i = ds ! i")
    case True
    then show ?thesis using assms(7) i x len by (simp add: sound_def)
  next
    case False
    have il: "i < length ds" using i len by simp
    have ch: "i = nat (bf_v e)" "ds' ! i = w_add (ds ! nat (bf_u e)) (bf_w e)"
        "ds ! nat (bf_u e) \<noteq> INFTY"
      using bf_relax_step(4) [OF assms(1-5) il False] by blast+
    obtain y where y: "ds ! nat (bf_u e) = Fin y"
      using ch(3) by (cases "ds ! nat (bf_u e)") simp_all
    obtain w where w: "bf_w e = Fin w" "x = y + w"
      using ch(2) x y by (cases "bf_w e") simp_all
    obtain k where k: "walk E s (int (nat (bf_u e))) y k"
      using assms(7) y assms(2,3) unfolding sound_def by (metis nat_less_iff)
    have e: "BFEdge (bf_u e) (bf_v e) (Fin w) \<in> E"
      using assms(6) w(1) by (cases e) simp
    have "walk E s (bf_v e) (y + w) (Suc k)"
      using walk_step [OF _ e, of s y k] k assms(2) by simp
    then show ?thesis
      using ch(1) w(2) assms(4) by auto
  qed
qed

lemma bf_pass_props:
  assumes "for_each bf_relax es (ds, ps, c) = Inr (ds', ps', c')"
    and "\<And>e. e \<in> set es \<Longrightarrow>
           0 \<le> bf_u e \<and> bf_u e < int (length ds) \<and> 0 \<le> bf_v e \<and> bf_v e < int (length ds)"
  shows "length ds' = length ds \<and> (\<forall>i<length ds. w_le (ds' ! i) (ds ! i)) \<and>
         (\<forall>e\<in>set es. w_le (ds' ! nat (bf_v e)) (w_add (ds ! nat (bf_u e)) (bf_w e)))"
  using assms
proof (induction es arbitrary: ds ps c)
  case Nil
  then show ?case by simp
next
  case (Cons e es)
  obtain ds1 ps1 c1 where s1: "bf_relax e (ds, ps, c) = Inr (ds1, ps1, c1)"
    and rest: "for_each bf_relax es (ds1, ps1, c1) = Inr (ds', ps', c')"
    using Cons.prems(1) by (auto split: sum.splits)
  have r: "0 \<le> bf_u e" "bf_u e < int (length ds)" "0 \<le> bf_v e" "bf_v e < int (length ds)"
    using Cons.prems(2) [of e] by simp_all
  note st = bf_relax_step [OF s1 r]
  have ih: "length ds' = length ds1 \<and> (\<forall>i<length ds1. w_le (ds' ! i) (ds1 ! i)) \<and>
         (\<forall>e\<in>set es. w_le (ds' ! nat (bf_v e)) (w_add (ds1 ! nat (bf_u e)) (bf_w e)))"
    using Cons.IH [OF rest] Cons.prems(2) st(1) by simp
  have mono: "w_le (ds' ! i) (ds ! i)" if "i < length ds" for i
    using ih st(1) st(2) [OF that] that w_le_trans by auto
  have head: "w_le (ds' ! nat (bf_v e)) (w_add (ds ! nat (bf_u e)) (bf_w e))"
  proof -
    have "nat (bf_v e) < length ds1" using r st(1) nat_less_length by simp
    then have "w_le (ds' ! nat (bf_v e)) (ds1 ! nat (bf_v e))" using ih by simp
    then show ?thesis using st(3) w_le_trans by blast
  qed
  have tail: "w_le (ds' ! nat (bf_v e')) (w_add (ds ! nat (bf_u e')) (bf_w e'))"
    if "e' \<in> set es" for e'
  proof -
    have "nat (bf_u e') < length ds" using Cons.prems(2) [of e'] that nat_less_length by simp
    then have "w_le (w_add (ds1 ! nat (bf_u e')) (bf_w e')) (w_add (ds ! nat (bf_u e')) (bf_w e'))"
      using st(2) w_add_mono by simp
    moreover have "w_le (ds' ! nat (bf_v e')) (w_add (ds1 ! nat (bf_u e')) (bf_w e'))"
      using ih that by simp
    ultimately show ?thesis using w_le_trans by blast
  qed
  show ?case
    using ih st(1) mono head tail by auto
qed

lemma bf_pass_sound:
  assumes "for_each bf_relax es (ds, ps, c) = Inr (ds', ps', c')"
    and "\<And>e. e \<in> set es \<Longrightarrow>
           0 \<le> bf_u e \<and> bf_u e < int (length ds) \<and> 0 \<le> bf_v e \<and> bf_v e < int (length ds)"
    and "set es \<subseteq> E" "sound E s ds"
  shows "sound E s ds'"
  using assms
proof (induction es arbitrary: ds ps c)
  case Nil
  then show ?case by simp
next
  case (Cons e es)
  obtain ds1 ps1 c1 where s1: "bf_relax e (ds, ps, c) = Inr (ds1, ps1, c1)"
    and rest: "for_each bf_relax es (ds1, ps1, c1) = Inr (ds', ps', c')"
    using Cons.prems(1) by (auto split: sum.splits)
  have r: "0 \<le> bf_u e" "bf_u e < int (length ds)" "0 \<le> bf_v e" "bf_v e < int (length ds)"
    using Cons.prems(2) [of e] by simp_all
  have len: "length ds1 = length ds"
    using bf_relax_step(1) [OF s1 r] .
  have s: "sound E s ds1"
    using bf_relax_sound [OF s1 r _ Cons.prems(4)] Cons.prems(3) by simp
  show ?case
    using Cons.IH [OF rest _ _ s] Cons.prems(2,3) len by simp
qed

lemma bf_pass_covered:
  assumes "for_each bf_relax es (ds, ps, c) = Inr (ds', ps', c')"
    and "\<And>e. e \<in> set es \<Longrightarrow>
           0 \<le> bf_u e \<and> bf_u e < int (length ds) \<and> 0 \<le> bf_v e \<and> bf_v e < int (length ds)"
    and "set es = E" "0 \<le> s" "s < int (length ds)" "covered E s j ds"
  shows "covered E s (Suc j) ds'"
  unfolding covered_def
proof (intro allI impI)
  fix v x k assume k: "k \<le> Suc j" and w: "walk E s v x k"
  note pp = bf_pass_props [OF assms(1,2)]
  have vr: "0 \<le> v \<and> v < int (length ds)"
    using walk_in_range [OF assms(4,5) _ w] assms(2,3) by blast
  then have vn: "nat v < length ds" using nat_less_length by simp
  show "\<exists>y. ds' ! nat v = Fin y \<and> y \<le> x"
  proof (cases "k \<le> j")
    case True
    then obtain y where y: "ds ! nat v = Fin y" "y \<le> x"
      using assms(6) w unfolding covered_def by blast
    have "w_le (ds' ! nat v) (Fin y)"
      using pp vn y(1) by metis
    then show ?thesis
      using y(2) by (cases "ds' ! nat v") auto
  next
    case False
    then obtain k' where k': "k = Suc k'" "k' \<le> j"
      using k by (cases k) auto
    obtain u y w' where u: "walk E s u y k'" "BFEdge u v (Fin w') \<in> E" "x = y + w'"
      using walk_Suc w k'(1) by blast
    obtain yu where yu: "ds ! nat u = Fin yu" "yu \<le> y"
      using assms(6) u(1) k'(2) unfolding covered_def by blast
    have "w_le (ds' ! nat v) (w_add (ds ! nat u) (Fin w'))"
      using pp u(2) assms(3) by force
    then have "w_le (ds' ! nat v) (Fin (yu + w'))"
      using yu(1) by simp
    then show ?thesis
      using yu(2) u(3) by (cases "ds' ! nat v") auto
  qed
qed

lemma bf_passes_full_props:
  assumes "bf_passes_full j es (ds, ps) = Inr (ds', ps')"
    and "\<And>e. e \<in> set es \<Longrightarrow>
           0 \<le> bf_u e \<and> bf_u e < int (length ds) \<and> 0 \<le> bf_v e \<and> bf_v e < int (length ds)"
    and "set es = E" "0 \<le> s" "s < int (length ds)" "sound E s ds" "covered E s i ds"
  shows "length ds' = length ds \<and> sound E s ds' \<and> covered E s (i + j) ds'"
  using assms(1,2,5,6,7)
proof (induction j arbitrary: ds ps i)
  case 0
  then show ?case by simp
next
  case (Suc j)
  obtain ds1 ps1 c1 where p: "for_each bf_relax es (ds, ps, False) = Inr (ds1, ps1, c1)"
    and rest: "bf_passes_full j es (ds1, ps1) = Inr (ds', ps')"
    using Suc.prems(1) by (auto split: sum.splits)
  have len: "length ds1 = length ds"
    using bf_pass_props [OF p Suc.prems(2)] by simp
  have s1: "sound E s ds1"
    using bf_pass_sound [OF p Suc.prems(2) _ Suc.prems(4)] assms(3) by simp
  have c1: "covered E s (Suc i) ds1"
    using bf_pass_covered [OF p Suc.prems(2) assms(3,4) Suc.prems(3,5)] .
  have "length ds' = length ds1 \<and> sound E s ds' \<and> covered E s (Suc i + j) ds'"
    using Suc.IH [OF rest _ _ s1 c1] Suc.prems(2,3) len by simp
  then show ?case using len by simp
qed
subsection \<open>The queue\<close>

lemma pq_min_least:
  "pq_min m xs \<in> set (m # xs) \<and> (\<forall>y\<in>set (m # xs). w_le (snd (pq_min m xs)) (snd y))"
proof (induction xs arbitrary: m)
  case Nil
  then show ?case by simp
next
  case (Cons x xs)
  let ?m = "if w_less (snd x) (snd m) then x else m"
  have ih: "pq_min ?m xs \<in> set (?m # xs)"
      "\<And>y. y \<in> set (?m # xs) \<Longrightarrow> w_le (snd (pq_min ?m xs)) (snd y)"
    using Cons.IH [of ?m] by blast+
  have m: "w_le (snd ?m) (snd m)" "w_le (snd ?m) (snd x)"
    using w_less_imp_le [of "snd x" "snd m"] by (auto simp: w_le_def)
  have "w_le (snd (pq_min ?m xs)) (snd ?m)"
    using ih(2) [of ?m] by simp
  then have "w_le (snd (pq_min ?m xs)) (snd m)" "w_le (snd (pq_min ?m xs)) (snd x)"
    using m w_le_trans by blast+
  moreover have "\<And>y. y \<in> set xs \<Longrightarrow> w_le (snd (pq_min ?m xs)) (snd y)"
    using ih(2) by simp
  moreover have "pq_min ?m xs \<in> set (m # x # xs)"
    using ih(1) by (auto split: if_splits)
  ultimately show ?case by simp
qed

lemma Dequeue_least:
  assumes "Dequeue q = Inr (u, q')"
  shows "\<exists>p. (u, p) \<in> set q \<and> q' = remove1 (u, p) q \<and> (\<forall>v p'. (v, p') \<in> set q \<longrightarrow> w_le p p')"
proof -
  obtain x xs where q: "q = x # xs" and u: "u = fst (pq_min x xs)"
    and q': "q' = remove1 (pq_min x xs) q"
    using assms by (auto simp: Dequeue_def Let_def split: list.splits)
  let ?p = "snd (pq_min x xs)"
  have m: "pq_min x xs = (u, ?p)" using u by simp
  have "(u, ?p) \<in> set q" "\<And>v p'. (v, p') \<in> set q \<Longrightarrow> w_le ?p p'"
    using pq_min_least [of x xs] q m by force+
  then show ?thesis
    using q' m by metis
qed

subsection \<open>The inner loop of dijkstra\<close>

lemma upto_n_set: "v \<in> set (upto_n n) \<longleftrightarrow> 0 \<le> v \<and> v < n"
proof
  assume "v \<in> set (upto_n n)"
  then obtain i where "v = int i" "i < nat n"
    by (auto simp: upto_n_def)
  then show "0 \<le> v \<and> v < n" by linarith
next
  assume a: "0 \<le> v \<and> v < n"
  then have "nat v < nat n" "int (nat v) = v" by simp_all
  then have "v \<in> int ` {0..<nat n}"
    by (metis atLeastLessThan_iff imageI le0)
  then show "v \<in> set (upto_n n)"
    by (simp add: upto_n_def)
qed

lemma neighbors_all_entries:
  assumes "0 \<le> u" "u < vertex_count g" "e \<in> set (neighbors g u)"
  shows "BFEdge u (to e) (weight e) \<in> set (all_entries g)"
  using assms by (auto simp: all_entries_def upto_n_set)

lemma neighbors_nonneg:
  assumes "graph_inv g" "nonneg_weights g" "0 \<le> u" "u < vertex_count g" "e \<in> set (neighbors g u)"
  shows "\<not> w_less (weight e) (Fin 0)"
proof -
  have "nat u < length (adj g)"
    using assms(1,3,4) by (simp add: graph_inv_def nat_less_length)
  then have "adj g ! nat u \<in> set (adj g)"
    by simp
  then show ?thesis
    using assms(2,5) by (auto simp: nonneg_weights_def list_all_iff neighbors_def)
qed

lemma all_entries_nonneg:
  assumes "graph_inv g" "nonneg_weights g" "x \<in> set (all_entries g)"
  shows "\<not> w_less (bf_w x) (Fin 0)"
proof -
  obtain u e where "0 \<le> u" "u < vertex_count g" "e \<in> set (neighbors g u)"
      "x = BFEdge u (to e) (weight e)"
    using assms(3) by (auto simp: all_entries_def upto_n_set)
  then show ?thesis
    using neighbors_nonneg [OF assms(1,2)] by simp
qed

lemma used_count_le: "used_count n used \<le> nat n"
proof -
  have "{v. 0 \<le> v \<and> v < n \<and> used v} \<subseteq> {0..<n}" by auto
  then have "card {v. 0 \<le> v \<and> v < n \<and> used v} \<le> card {0..<n}"
    by (intro card_mono) simp_all
  then show ?thesis by (simp add: used_count_def)
qed

lemma used_count_insert:
  assumes "0 \<le> u" "u < n" "\<not> used u"
  shows "used_count n (\<lambda>v. v = u \<or> used v) = Suc (used_count n used)"
proof -
  have "{v. 0 \<le> v \<and> v < n \<and> (v = u \<or> used v)} = insert u {v. 0 \<le> v \<and> v < n \<and> used v}"
    using assms by auto
  moreover have "finite {v. 0 \<le> v \<and> v < n \<and> used v}"
    by (rule finite_subset [of _ "{0..<n}"]) auto
  moreover have "u \<notin> {v. 0 \<le> v \<and> v < n \<and> used v}"
    using assms(3) by simp
  ultimately show ?thesis
    by (simp add: used_count_def)
qed

lemma can_relax_mono:
  assumes "ds' ! nat a = ds ! nat a" "w_le (ds' ! nat b) (ds ! nat b)"
    and "\<not> can_relax ds (BFEdge a b w)"
  shows "\<not> can_relax ds' (BFEdge a b w)"
proof
  assume c: "can_relax ds' (BFEdge a b w)"
  then have f: "ds ! nat a \<noteq> INFTY" and l: "w_less (w_add (ds ! nat a) w) (ds' ! nat b)"
    using assms(1) by (simp_all add: can_relax_def)
  have "w_less (w_add (ds ! nat a) w) (ds ! nat b)"
    using w_less_le_trans [OF l assms(2)] .
  then show False
    using assms(3) f by (simp add: can_relax_def)
qed

lemma dijkstra_relax_unfold:
  assumes "\<not> w_less (weight e) (Fin 0)"
    and "0 \<le> u" "u < int (length ds)" "0 \<le> to e" "to e < int (length ds)"
  shows "dijkstra_relax u e (ds, ps, pq) =
     (if ds ! nat u = INFTY then Inr (ds, ps, pq)
      else if w_less (w_add (ds ! nat u) (weight e)) (ds ! nat (to e)) then
        (case da_Set ps (to e) u of
           Inl x \<Rightarrow> Inl x
         | Inr ps' \<Rightarrow> Inr (ds[nat (to e) := w_add (ds ! nat u) (weight e)], ps',
                        pq @ [(to e, w_add (ds ! nat u) (weight e))]))
      else Inr (ds, ps, pq))"
  using assms by (simp add: dijkstra_relax_def da_Get_def da_Set_def Let_def Enqueue_def)

lemma dijkstra_relax_cases:
  assumes "dijkstra_relax u e (ds, ps, pq) = Inr (ds', ps', pq')"
    and "\<not> w_less (weight e) (Fin 0)"
    and "0 \<le> u" "u < int (length ds)" "0 \<le> to e" "to e < int (length ds)"
  shows "(ds' = ds \<and> pq' = pq \<and> \<not> can_relax ds (BFEdge u (to e) (weight e))) \<or>
         (ds' = ds[nat (to e) := w_add (ds ! nat u) (weight e)] \<and>
          pq' = pq @ [(to e, w_add (ds ! nat u) (weight e))] \<and>
          can_relax ds (BFEdge u (to e) (weight e)))"
proof (cases "ds ! nat u = INFTY")
  case True
  then show ?thesis
    using assms(1) by (simp add: dijkstra_relax_unfold [OF assms(2-6)] can_relax_def)
next
  case fin: False
  show ?thesis
  proof (cases "w_less (w_add (ds ! nat u) (weight e)) (ds ! nat (to e))")
    case True
    then show ?thesis
      using assms(1) fin
      by (auto simp: dijkstra_relax_unfold [OF assms(2-6)] can_relax_def split: sum.splits)
  next
    case False
    then show ?thesis
      using assms(1) fin by (simp add: dijkstra_relax_unfold [OF assms(2-6)] can_relax_def)
  qed
qed

lemma dj_inner_step:
  assumes inv: "graph_inv g" and nn: "nonneg_weights g"
    and s: "0 \<le> s" "s < vertex_count g"
    and u: "0 \<le> u" "u < vertex_count g" "used u"
    and e: "e \<in> set (neighbors g u)"
    and J: "dj_inner g s used u du seen ds pq"
    and r: "dijkstra_relax u e (ds, ps, pq) = Inr (ds', ps', pq')"
  shows "dj_inner g s used u du (seen @ [e]) ds' pq'"
proof -
  let ?n = "vertex_count g" and ?E = "set (all_entries g)"
  let ?v = "to e" and ?nd = "w_add du (weight e)"
  have len: "length ds = nat ?n" and src: "ds ! nat s = Fin 0"
    and snd: "dj_sound ?E ?n s ds used" and que: "dj_queued ?n ds pq used"
    and bnd: "dj_bounds ?n ds pq used"
    and old: "\<And>u'. 0 \<le> u' \<Longrightarrow> u' < ?n \<Longrightarrow> used u' \<Longrightarrow> u' \<noteq> u \<Longrightarrow> dj_relaxed ds u' (neighbors g u')"
    and cur: "dj_relaxed ds u seen" and dsu: "ds ! nat u = du"
    and low: "\<And>u'. 0 \<le> u' \<Longrightarrow> u' < ?n \<Longrightarrow> used u' \<Longrightarrow> w_le (ds ! nat u') du"
    using J unfolding dj_inner_def by blast+
  have v: "0 \<le> ?v" "?v < ?n"
    using neighbors_in_range [OF inv u(1,2) e] by simp_all
  have wn: "\<not> w_less (weight e) (Fin 0)"
    using neighbors_nonneg [OF inv nn u(1,2) e] .
  have len0: "int (length ds) = ?n"
    using len u(1,2) by simp
  have edge: "BFEdge u ?v (weight e) \<in> ?E"
    using neighbors_all_entries [OF u(1,2) e] .
  consider (same) "ds' = ds" "pq' = pq" "\<not> can_relax ds (BFEdge u ?v (weight e))"
    | (upd) "ds' = ds[nat ?v := ?nd]" "pq' = pq @ [(?v, ?nd)]" "can_relax ds (BFEdge u ?v (weight e))"
    using dijkstra_relax_cases [OF r wn u(1) _ v(1)] u(2) v(2) len0 dsu by auto
  then show ?thesis
  proof cases
    case same
    have "dj_relaxed ds u (seen @ [e])"
      using cur same(3) by (simp add: dj_relaxed_def)
    then show ?thesis
      using J same(1,2) unfolding dj_inner_def by simp
  next
    case upd
    have fin: "du \<noteq> INFTY" and lt: "w_less ?nd (ds ! nat ?v)"
      using upd(3) dsu by (simp_all add: can_relax_def)
    obtain y where y: "du = Fin y"
      using fin by (cases du) simp_all
    obtain w where w: "weight e = Fin w" "?nd = Fin (y + w)" "0 \<le> w"
      using lt y wn by (cases "weight e") (simp_all add: not_less)
    have vn: "nat ?v < length ds"
      using v len by (simp add: nat_less_length)
    have nu: "\<not> used ?v"
    proof
      assume "used ?v"
      then have "w_le (ds ! nat ?v) du" using low v by simp
      moreover have "w_le du ?nd" using wn by (rule w_add_nonneg)
      ultimately have "w_le (ds ! nat ?v) ?nd" using w_le_trans by blast
      then show False using lt by (simp add: w_le_def)
    qed
    then have vu: "?v \<noteq> u" using u(3) by auto
    have other: "ds' ! nat v' = ds ! nat v'" if "0 \<le> v'" "v' \<noteq> ?v" for v'
      using that v(1) upd(1) by (simp add: nat_eq_iff)
    have at: "ds' ! nat ?v = ?nd"
      using upd(1) vn by simp
    have le: "w_le (ds' ! j) (ds ! j)" for j
    proof (cases "j = nat ?v")
      case True
      then show ?thesis using at lt by (simp add: w_less_imp_le)
    next
      case False
      then show ?thesis using upd(1) by simp
    qed
    obtain ku where ku: "walk ?E s u y ku" "ku < used_count ?n used"
      using snd u dsu y unfolding dj_sound_def by blast
    have ynn: "0 \<le> y"
      using walk_nonneg [OF _ ku(1)] all_entries_nonneg [OF inv nn] by blast
    have vs: "?v \<noteq> s"
    proof
      assume "?v = s"
      then have "w_less (Fin (y + w)) (Fin 0)" using lt src w(2) by simp
      then show False using ynn w(3) by simp
    qed
    have wv: "walk ?E s ?v (y + w) (Suc ku)"
      using walk_step [OF ku(1), of ?v w] edge w(1) by simp
    have c1: "length ds' = nat ?n"
      using len upd(1) by simp
    have c2: "ds' ! nat s = Fin 0"
      using other [OF s(1)] vs src by auto
    have c3: "dj_sound ?E ?n s ds' used"
      unfolding dj_sound_def
    proof (intro allI impI)
      fix v' x assume a: "0 \<le> v'" "v' < ?n" "ds' ! nat v' = Fin x"
      show "\<exists>k. walk ?E s v' x k \<and> k \<le> used_count ?n used \<and> (used v' \<longrightarrow> k < used_count ?n used)"
      proof (cases "v' = ?v")
        case True
        then have "x = y + w" using a(3) at w(2) by simp
        then show ?thesis using wv ku(2) nu True by (intro exI [of _ "Suc ku"]) simp
      next
        case False
        then show ?thesis using snd a other [OF a(1)] unfolding dj_sound_def by simp
      qed
    qed
    have c4: "dj_queued ?n ds' pq' used"
      unfolding dj_queued_def
    proof (intro allI impI)
      fix v' x assume a: "0 \<le> v'" "v' < ?n" "\<not> used v'" "ds' ! nat v' = Fin x"
      show "(v', Fin x) \<in> set pq'"
      proof (cases "v' = ?v")
        case True
        then show ?thesis using a(4) at upd(2) by simp
      next
        case False
        then have "(v', Fin x) \<in> set pq"
          using que a other [OF a(1)] unfolding dj_queued_def by simp
        then show ?thesis using upd(2) by simp
      qed
    qed
    have keep: "ds' ! nat u' = ds ! nat u'" if "0 \<le> u'" "used u'" for u'
      using other [OF that(1)] that(2) nu by auto
    have c5: "dj_bounds ?n ds' pq' used"
      unfolding dj_bounds_def
    proof (intro allI impI conjI)
      fix v' p assume m: "(v', p) \<in> set pq'" and a: "0 \<le> v'" "v' < ?n"
      show "w_le (ds' ! nat v') p"
      proof (cases "(v', p) \<in> set pq")
        case True
        then have "w_le (ds ! nat v') p" using bnd a unfolding dj_bounds_def by blast
        then show ?thesis using le w_le_trans by blast
      next
        case False
        then have "v' = ?v" "p = ?nd" using m upd(2) by auto
        then show ?thesis using at by simp
      qed
    next
      fix v' p u' assume m: "(v', p) \<in> set pq'" and a: "0 \<le> u'" "u' < ?n" "used u'"
      show "w_le (ds' ! nat u') p"
      proof (cases "(v', p) \<in> set pq")
        case True
        then have "w_le (ds ! nat u') p" using bnd a unfolding dj_bounds_def by blast
        then show ?thesis using keep a by simp
      next
        case False
        then have "p = ?nd" using m upd(2) by auto
        moreover have "w_le (ds ! nat u') du" using low a by simp
        moreover have "w_le du ?nd" using wn by (rule w_add_nonneg)
        ultimately show ?thesis using keep a w_le_trans by metis
      qed
    qed
    have c6: "dj_relaxed ds' u' (neighbors g u')"
      if a: "0 \<le> u'" "u' < ?n" "used u'" "u' \<noteq> u" for u'
      unfolding dj_relaxed_def
    proof
      fix e' assume "e' \<in> set (neighbors g u')"
      then have "\<not> can_relax ds (BFEdge u' (to e') (weight e'))"
        using old [OF a] by (simp add: dj_relaxed_def)
      then show "\<not> can_relax ds' (BFEdge u' (to e') (weight e'))"
        using can_relax_mono [OF keep [OF a(1,3)] le] by blast
    qed
    have c7: "dj_relaxed ds' u (seen @ [e])"
      unfolding dj_relaxed_def
    proof
      fix e' assume "e' \<in> set (seen @ [e])"
      then consider "e' \<in> set seen" | "e' = e" by auto
      then show "\<not> can_relax ds' (BFEdge u (to e') (weight e'))"
      proof cases
        case 1
        then have "\<not> can_relax ds (BFEdge u (to e') (weight e'))"
          using cur by (simp add: dj_relaxed_def)
        then show ?thesis
          using can_relax_mono [OF keep [OF u(1,3)] le] by blast
      next
        case 2
        have "ds' ! nat u = du" using keep [OF u(1,3)] dsu by simp
        then show ?thesis using 2 at by (simp add: can_relax_def)
      qed
    qed
    have c8: "ds' ! nat u = du"
      using keep [OF u(1,3)] dsu by simp
    have c9: "w_le (ds' ! nat u') du" if "0 \<le> u'" "u' < ?n" "used u'" for u'
      using keep [OF that(1,3)] low [OF that] by simp
    show ?thesis
      unfolding dj_inner_def using c1 c2 c3 c4 c5 c6 c7 c8 c9 by blast
  qed
qed

subsection \<open>The loop of dijkstra\<close>

lemma for_each_seen_inv:
  assumes "I seen s" "for_each body xs s = Inr s'"
    and "\<And>x seen s s'. x \<in> set xs \<Longrightarrow> I seen s \<Longrightarrow> body x s = Inr s' \<Longrightarrow> I (seen @ [x]) s'"
  shows "I (seen @ xs) s'"
  using assms
proof (induction xs arbitrary: seen s)
  case Nil
  then show ?case by simp
next
  case (Cons x xs)
  obtain s1 where s1: "body x s = Inr s1" and rest: "for_each body xs s1 = Inr s'"
    using Cons.prems(2) by (auto split: sum.splits)
  have h1: "I (seen @ [x]) s1"
    using Cons.prems(3) [of x seen s s1] Cons.prems(1) s1 by simp
  have step: "\<And>y seen s s'. y \<in> set xs \<Longrightarrow> I seen s \<Longrightarrow> body y s = Inr s' \<Longrightarrow> I (seen @ [y]) s'"
    using Cons.prems(3) by (meson list.set_intros(2))
  have "I ((seen @ [x]) @ xs) s'"
    by (rule Cons.IH [OF h1 rest step])
  then show ?case by simp
qed

lemma dj_inner_all:
  assumes "graph_inv g" "nonneg_weights g" "0 \<le> s" "s < vertex_count g"
    and "0 \<le> u" "u < vertex_count g" "used u"
    and "dj_inner g s used u du [] ds pq"
    and "for_each (dijkstra_relax u) (neighbors g u) (ds, ps, pq) = Inr (ds', ps', pq')"
  shows "dj_inner g s used u du (neighbors g u) ds' pq'"
proof -
  let ?I = "\<lambda>seen (st :: dijkstra_state). case st of (ds, ps, pq) \<Rightarrow> dj_inner g s used u du seen ds pq"
  have "?I ([] @ neighbors g u) (ds', ps', pq')"
  proof (rule for_each_seen_inv [where I = ?I, OF _ assms(9)])
    show "?I [] (ds, ps, pq)" using assms(8) by simp
  next
    fix e seen st st'
    assume e: "e \<in> set (neighbors g u)" and i: "?I seen st" and r: "dijkstra_relax u e st = Inr st'"
    obtain a b c where st: "st = (a, b, c)" by (cases st)
    obtain a' b' c' where st': "st' = (a', b', c')" by (cases st')
    show "?I (seen @ [e]) st'"
      using dj_inner_step [where used = used and du = du and seen = seen and ds = a and pq = c
            and ps = b and ds' = a' and ps' = b' and pq' = c', OF assms(1-7) e] i r
      unfolding st st' by simp
  qed
  then show ?thesis by simp
qed

lemma dj_inner_final:
  assumes "dj_inner g s used u du (neighbors g u) ds pq"
  shows "dj_inv g s ds pq used"
proof -
  have "dj_relaxed ds u' (neighbors g u')"
    if "0 \<le> u'" "u' < vertex_count g" "used u'" for u'
    using assms that unfolding dj_inner_def by (cases "u' = u") blast+
  then show ?thesis
    using assms unfolding dj_inner_def dj_inv_def by blast
qed

lemma dj_inner_init:
  assumes I: "dj_inv g s ds pq used" and d: "Dequeue pq = Inr (u, pq1)"
    and u: "0 \<le> u" "u < vertex_count g" "\<not> used u"
  shows "dj_inner g s (used(u := True)) u (ds ! nat u) [] ds pq1"
proof -
  let ?n = "vertex_count g" and ?E = "set (all_entries g)"
  let ?used = "used(u := True)"
  have len: "length ds = nat ?n" and src: "ds ! nat s = Fin 0"
    and snd: "dj_sound ?E ?n s ds used" and que: "dj_queued ?n ds pq used"
    and bnd: "dj_bounds ?n ds pq used"
    and old: "\<And>u'. 0 \<le> u' \<Longrightarrow> u' < ?n \<Longrightarrow> used u' \<Longrightarrow> dj_relaxed ds u' (neighbors g u')"
    using I unfolding dj_inv_def by blast+
  obtain p where p: "(u, p) \<in> set pq" "pq1 = remove1 (u, p) pq"
      "\<And>v p'. (v, p') \<in> set pq \<Longrightarrow> w_le p p'"
    using Dequeue_least [OF d] by blast
  have sub: "\<And>x. x \<in> set pq1 \<Longrightarrow> x \<in> set pq"
    using p(2) set_remove1_subset by fastforce
  have up: "w_le (ds ! nat u) p"
    using bnd p(1) u(1,2) unfolding dj_bounds_def by blast
  have pu: "p = ds ! nat u"
  proof (cases "ds ! nat u")
    case (Fin x)
    then have "(u, Fin x) \<in> set pq"
      using que u unfolding dj_queued_def by blast
    then have "w_le p (Fin x)" using p(3) by blast
    then show ?thesis using up Fin w_le_antisym by simp
  next
    case INFTY
    then show ?thesis using up by simp
  qed
  have ueq: "?used v = (v = u \<or> used v)" for v
    by simp
  have cnt: "used_count ?n ?used = Suc (used_count ?n used)"
  proof -
    have "?used = (\<lambda>v. v = u \<or> used v)" by (rule ext) simp
    then show ?thesis using used_count_insert [where used = used, OF u] by simp
  qed
  have c3: "dj_sound ?E ?n s ds ?used"
    unfolding dj_sound_def
  proof (intro allI impI)
    fix v x assume a: "0 \<le> v" "v < ?n" "ds ! nat v = Fin x"
    then obtain k where k: "walk ?E s v x k" "k \<le> used_count ?n used"
        "used v \<longrightarrow> k < used_count ?n used"
      using snd unfolding dj_sound_def by blast
    show "\<exists>k. walk ?E s v x k \<and> k \<le> used_count ?n ?used \<and> (?used v \<longrightarrow> k < used_count ?n ?used)"
      using k unfolding cnt by (intro exI [of _ k]) auto
  qed
  have c4: "dj_queued ?n ds pq1 ?used"
    unfolding dj_queued_def
  proof (intro allI impI)
    fix v x assume a: "0 \<le> v" "v < ?n" "\<not> ?used v" "ds ! nat v = Fin x"
    then have vu: "v \<noteq> u" "\<not> used v" by (auto split: if_splits)
    then have "(v, Fin x) \<in> set pq"
      using que a(1,2,4) unfolding dj_queued_def by blast
    then show "(v, Fin x) \<in> set pq1"
      using vu(1) p(2) by (simp add: in_set_remove1)
  qed
  have c5: "dj_bounds ?n ds pq1 ?used"
    unfolding dj_bounds_def
  proof (intro allI impI conjI)
    fix v p' assume m: "(v, p') \<in> set pq1" and a: "0 \<le> v" "v < ?n"
    show "w_le (ds ! nat v) p'"
      using bnd sub [OF m] a unfolding dj_bounds_def by blast
  next
    fix v p' u' assume m: "(v, p') \<in> set pq1" and a: "0 \<le> u'" "u' < ?n" "?used u'"
    show "w_le (ds ! nat u') p'"
    proof (cases "u' = u")
      case True
      then show ?thesis using p(3) [OF sub [OF m]] pu by simp
    next
      case False
      then have "used u'" using a(3) by (simp add: ueq)
      then show ?thesis using bnd sub [OF m] a(1,2) unfolding dj_bounds_def by blast
    qed
  qed
  have c6: "dj_relaxed ds u' (neighbors g u')"
    if "0 \<le> u'" "u' < ?n" "?used u'" "u' \<noteq> u" for u'
    using old [of u'] that by (simp add: ueq)
  have c7: "dj_relaxed ds u []"
    by (simp add: dj_relaxed_def)
  have c9: "w_le (ds ! nat u') (ds ! nat u)" if "0 \<le> u'" "u' < ?n" "?used u'" for u'
  proof (cases "u' = u")
    case True
    then show ?thesis by simp
  next
    case False
    then have "used u'" using that(3) by (simp add: ueq)
    then have "w_le (ds ! nat u') p"
      using bnd p(1) that(1,2) unfolding dj_bounds_def by blast
    then show ?thesis using pu by simp
  qed
  show ?thesis
    unfolding dj_inner_def using len src c3 c4 c5 c6 c7 c9 by blast
qed

lemma dj_inv_skip:
  assumes I: "dj_inv g s ds pq used" and d: "Dequeue pq = Inr (u, pq1)"
    and u: "u < 0 \<or> u \<ge> vertex_count g \<or> used u"
  shows "dj_inv g s ds pq1 used"
proof -
  let ?n = "vertex_count g"
  have que: "dj_queued ?n ds pq used" and bnd: "dj_bounds ?n ds pq used"
    using I unfolding dj_inv_def by blast+
  obtain p where p: "(u, p) \<in> set pq" "pq1 = remove1 (u, p) pq"
    using Dequeue_least [OF d] by blast
  have sub: "\<And>x. x \<in> set pq1 \<Longrightarrow> x \<in> set pq"
    using p(2) set_remove1_subset by fastforce
  have c4: "dj_queued ?n ds pq1 used"
    unfolding dj_queued_def
  proof (intro allI impI)
    fix v x assume a: "0 \<le> v" "v < ?n" "\<not> used v" "ds ! nat v = Fin x"
    then have vu: "v \<noteq> u" using u by auto
    have "(v, Fin x) \<in> set pq"
      using que a unfolding dj_queued_def by blast
    then show "(v, Fin x) \<in> set pq1"
      using vu p(2) by (simp add: in_set_remove1)
  qed
  have c5: "dj_bounds ?n ds pq1 used"
    using bnd sub unfolding dj_bounds_def by blast
  show ?thesis
    using I c4 c5 unfolding dj_inv_def by blast
qed

lemma dj_inv_loop:
  assumes "graph_inv g" "nonneg_weights g" "0 \<le> s" "s < vertex_count g"
  shows "dj_inv g s ds pq used \<Longrightarrow>
         dijkstra_loop g (vertex_count g) (ds, ps, pq) used = Inr (ds', ps') \<Longrightarrow>
         \<exists>used'. dj_inv g s ds' [] used'"
proof (induction ds ps pq used rule: dijkstra_loop_induct [where n = "vertex_count g" and g = g])
  case (empty ds ps pq used)
  then show ?case by (auto simp: dijkstra_loop_empty IsEmpty_def)
next
  case (skip ds ps pq used u pq1)
  have "dijkstra_loop g (vertex_count g) (ds, ps, pq) used =
        dijkstra_loop g (vertex_count g) (ds, ps, pq1) used"
    using skip.hyps by (intro dijkstra_loop_skip)
  then show ?case
    using skip.IH dj_inv_skip [OF skip.prems(1) skip.hyps(2,3)] skip.prems(2) by simp
next
  case (visit ds ps pq used u pq1)
  let ?r = "for_each (dijkstra_relax u) (neighbors g u) (ds, ps, pq1)"
  have eq: "dijkstra_loop g (vertex_count g) (ds, ps, pq) used =
      (case ?r of Inl x \<Rightarrow> Inl x
       | Inr st' \<Rightarrow> dijkstra_loop g (vertex_count g) st' (used(u := True)))"
    using visit.hyps by (intro dijkstra_loop_visit)
  then obtain ds1 ps1 pq2 where r: "?r = Inr (ds1, ps1, pq2)"
    using visit.prems(2) by (cases ?r) (auto simp only: sum.case sum.distinct)
  have next_eq: "dijkstra_loop g (vertex_count g) (ds1, ps1, pq2) (used(u := True)) = Inr (ds', ps')"
    using eq r visit.prems(2) by (simp only: sum.case)
  have j0: "dj_inner g s (used(u := True)) u (ds ! nat u) [] ds pq1"
    using dj_inner_init [OF visit.prems(1) visit.hyps(2,3,4,5)] .
  have uu: "(used(u := True)) u" by simp
  have "dj_inner g s (used(u := True)) u (ds ! nat u) (neighbors g u) ds1 pq2"
    using dj_inner_all [OF assms visit.hyps(3,4) uu j0 r] .
  then have "dj_inv g s ds1 pq2 (used(u := True))"
    by (rule dj_inner_final)
  then show ?case
    using visit.IH [OF r _ next_eq] by blast
qed

lemma dj_inv_init:
  assumes "0 \<le> s" "s < n" "n = vertex_count g"
  shows "dj_inv g s ((replicate (nat n) INFTY)[nat s := Fin 0]) (Enqueue pq_new s (Fin 0)) (\<lambda>i. False)"
proof -
  let ?ds = "(replicate (nat n) INFTY)[nat s := Fin 0]"
  have sn: "nat s < nat n" using assms(1,2) by simp
  have at: "?ds ! nat v = (if v = s then Fin 0 else INFTY)" if "0 \<le> v" "v < n" for v
    using that sn assms(1) by (simp add: nth_list_update nat_eq_iff)
  have c3: "dj_sound (set (all_entries g)) n s ?ds (\<lambda>i. False)"
    unfolding dj_sound_def
  proof (intro allI impI)
    fix v x assume a: "0 \<le> v" "v < n" "?ds ! nat v = Fin x"
    then have "v = s" "x = 0" using at [OF a(1,2)] by (auto split: if_splits)
    then show "\<exists>k. walk (set (all_entries g)) s v x k \<and> k \<le> used_count n (\<lambda>i. False) \<and>
        (False \<longrightarrow> k < used_count n (\<lambda>i. False))"
      using walk_start [of "set (all_entries g)" s] by (intro exI [of _ 0]) simp
  qed
  have c4: "dj_queued n ?ds (Enqueue pq_new s (Fin 0)) (\<lambda>i. False)"
    unfolding dj_queued_def
  proof (intro allI impI)
    fix v x assume a: "0 \<le> v" "v < n" "?ds ! nat v = Fin x"
    then have "v = s" "x = 0" using at [OF a(1,2)] by (auto split: if_splits)
    then show "(v, Fin x) \<in> set (Enqueue pq_new s (Fin 0))"
      by (simp add: Enqueue_def pq_new_def)
  qed
  have c5: "dj_bounds n ?ds (Enqueue pq_new s (Fin 0)) (\<lambda>i. False)"
    using at [OF assms(1,2)] by (simp add: dj_bounds_def Enqueue_def pq_new_def)
  show ?thesis
    unfolding dj_inv_def using sn at [OF assms(1,2)] c3 c4 c5 assms(3) by simp
qed

lemma dj_inv_final:
  assumes "graph_inv g" "dj_inv g s ds [] used"
  shows "(\<forall>e\<in>set (all_entries g). \<not> can_relax ds e) \<and>
         (\<forall>v x. 0 \<le> v \<longrightarrow> v < vertex_count g \<longrightarrow> ds ! nat v = Fin x \<longrightarrow>
            (\<exists>k. walk (set (all_entries g)) s v x k \<and> k \<le> nat (vertex_count g) - 1))"
proof (intro conjI ballI allI impI)
  let ?n = "vertex_count g"
  have snd: "dj_sound (set (all_entries g)) ?n s ds used" and que: "dj_queued ?n ds [] used"
    and rel: "\<And>u. 0 \<le> u \<Longrightarrow> u < ?n \<Longrightarrow> used u \<Longrightarrow> dj_relaxed ds u (neighbors g u)"
    using assms(2) unfolding dj_inv_def by blast+
  have fin_used: "used v" if "0 \<le> v" "v < ?n" "ds ! nat v = Fin x" for v x
    using que that unfolding dj_queued_def by auto
  {
    fix x assume "x \<in> set (all_entries g)"
    then obtain u e where ue: "0 \<le> u" "u < ?n" "e \<in> set (neighbors g u)"
        "x = BFEdge u (to e) (weight e)"
      by (auto simp: all_entries_def upto_n_set)
    show "\<not> can_relax ds x"
    proof (cases "ds ! nat u")
      case (Fin y)
      then have "used u" using fin_used ue(1,2) by blast
      then show ?thesis using rel ue unfolding dj_relaxed_def by blast
    next
      case INFTY
      then show ?thesis using ue(4) by (simp add: can_relax_def)
    qed
  }
  {
    fix v x assume a: "0 \<le> v" "v < ?n" "ds ! nat v = Fin x"
    then obtain k where k: "walk (set (all_entries g)) s v x k" "used v \<longrightarrow> k < used_count ?n used"
      using snd unfolding dj_sound_def by blast
    have "k < used_count ?n used" using k(2) fin_used [OF a] by simp
    then have "k \<le> nat ?n - 1" using used_count_le [of ?n used] by simp
    then show "\<exists>k. walk (set (all_entries g)) s v x k \<and> k \<le> nat ?n - 1"
      using k(1) by blast
  }
qed

subsection \<open>The two results\<close>

lemma dijkstra_dist_props:
  assumes "graph_inv g" "nonneg_weights g" "0 \<le> s" "s < vertex_count g"
  shows "\<exists>rd. dijkstra g s = Inr rd \<and> length (dist rd) = nat (vertex_count g) \<and>
           dist rd ! nat s = Fin 0 \<and>
           (\<forall>e\<in>set (all_entries g). \<not> can_relax (dist rd) e) \<and>
           (\<forall>v x. 0 \<le> v \<longrightarrow> v < vertex_count g \<longrightarrow> dist rd ! nat v = Fin x \<longrightarrow>
              (\<exists>k. walk (set (all_entries g)) s v x k \<and> k \<le> nat (vertex_count g) - 1))"
proof -
  let ?n = "vertex_count g"
  let ?ds = "(replicate (nat ?n) INFTY)[nat s := Fin 0]" and ?ps = "replicate (nat ?n) (- 1 :: Vertex)"
  let ?pq = "Enqueue pq_new s (Fin 0)"
  have n: "0 \<le> ?n" using assms(1) by (simp add: graph_inv_def)
  obtain ds' ps' where l: "dijkstra_loop g ?n (?ds, ?ps, ?pq) (\<lambda>i. False) = Inr (ds', ps')"
    using dijkstra_loop_ok [OF assms(1) refl, of ?ds ?ps ?pq "\<lambda>i. False"] by auto
  have i0: "dj_inv g s ?ds ?pq (\<lambda>i. False)"
    using dj_inv_init [OF assms(3,4) refl] .
  obtain used' where f: "dj_inv g s ds' [] used'"
    using dj_inv_loop [OF assms i0 l] by blast
  have d: "dijkstra g s = Inr \<lparr>dist = ds', parent = ps', has_negative_cycle = False\<rparr>"
    using assms(3,4) n l by (simp add: dijkstra_def init_result_eq Let_def da_Set_def)
  have "length ds' = nat ?n" "ds' ! nat s = Fin 0"
    using f unfolding dj_inv_def by blast+
  then show ?thesis
    using d dj_inv_final [OF assms(1) f] by simp
qed

lemma bellman_ford_dist_props:
  assumes "graph_inv g" "set (bf_edges g) = set (all_entries g)" "0 \<le> s" "s < vertex_count g"
  shows "\<exists>rb. bellman_ford g s = Inr rb \<and> length (dist rb) = nat (vertex_count g) \<and>
           sound (set (all_entries g)) s (dist rb) \<and>
           covered (set (all_entries g)) s (nat (vertex_count g) - 1) (dist rb)"
proof -
  let ?n = "vertex_count g" and ?E = "set (all_entries g)"
  let ?ds = "(replicate (nat ?n) INFTY)[nat s := Fin 0]" and ?ps = "replicate (nat ?n) (- 1 :: Vertex)"
  have sn: "nat s < nat ?n" using assms(3,4) by simp
  obtain d p where dp: "bf_passes (nat (?n - 1)) (bf_edges g) (?ds, ?ps) = Inr (d, p)"
      "bellman_ford g s =
         Inr \<lparr>dist = d, parent = p, has_negative_cycle = (\<exists>e\<in>set (bf_edges g). can_relax d e)\<rparr>"
    using bellman_ford_ok [OF assms(1,3,4)] by blast
  have full: "bf_passes_full (nat (?n - 1)) (bf_edges g) (?ds, ?ps) = Inr (d, p)"
    using dp(1) by (simp add: bf_passes_early_exit)
  have rng: "\<And>e. e \<in> set (bf_edges g) \<Longrightarrow>
      0 \<le> bf_u e \<and> bf_u e < int (length ?ds) \<and> 0 \<le> bf_v e \<and> bf_v e < int (length ?ds)"
    using bf_edges_in_range [OF assms(1)] assms(3,4) by simp
  have s0: "sound ?E s ?ds"
    unfolding sound_def
  proof (intro allI impI)
    fix i x assume "i < length ?ds" "?ds ! i = Fin x"
    then have "i = nat s" "x = 0"
      using sn by (auto simp: nth_list_update split: if_splits)
    then show "\<exists>k. walk ?E s (int i) x k"
      using walk_start [of ?E s] assms(3) by auto
  qed
  have c0: "covered ?E s 0 ?ds"
    unfolding covered_def using walk_zero sn by fastforce
  have sl: "s < int (length ?ds)"
    using assms(3,4) by simp
  have "length d = length ?ds \<and> sound ?E s d \<and> covered ?E s (0 + nat (?n - 1)) d"
    using bf_passes_full_props [OF full rng assms(2,3) sl s0 c0] .
  moreover have "nat (?n - 1) = nat ?n - 1"
    by simp
  ultimately show ?thesis
    using dp(2) by simp
qed

lemma out_of_range_results:
  assumes "0 \<le> vertex_count g" "source < 0 \<or> vertex_count g \<le> source"
  shows "\<exists>r. dijkstra g source = Inr r \<and> bellman_ford g source = Inr r"
  using assms by (auto simp: dijkstra_def bellman_ford_def init_result_eq Let_def)

text \<open>
  Where the edge list of \<open>bellman_ford\<close> holds every adjacency entry and no stored weight
  is negative, the two algorithms return the same distances.
\<close>

lemma dijkstra_bellman_ford_same_dist:
  assumes "graph_inv g" "nonneg_weights g" "set (bf_edges g) = set (all_entries g)"
  shows "\<exists>rd rb. dijkstra g source = Inr rd \<and> bellman_ford g source = Inr rb \<and> dist rd = dist rb"
proof (cases "source < 0 \<or> vertex_count g \<le> source")
  case True
  have "0 \<le> vertex_count g" using assms(1) by (simp add: graph_inv_def)
  then show ?thesis using out_of_range_results [OF _ True] by blast
next
  case False
  then have s: "0 \<le> source" "source < vertex_count g" by simp_all
  let ?n = "vertex_count g" and ?E = "set (all_entries g)"
  obtain rd where rd: "dijkstra g source = Inr rd" "length (dist rd) = nat ?n"
      "dist rd ! nat source = Fin 0" "\<And>e. e \<in> ?E \<Longrightarrow> \<not> can_relax (dist rd) e"
      "\<And>v x. 0 \<le> v \<Longrightarrow> v < ?n \<Longrightarrow> dist rd ! nat v = Fin x \<Longrightarrow>
          \<exists>k. walk ?E source v x k \<and> k \<le> nat ?n - 1"
    using dijkstra_dist_props [OF assms(1,2) s] by blast
  obtain rb where rb: "bellman_ford g source = Inr rb" "length (dist rb) = nat ?n"
      "sound ?E source (dist rb)" "covered ?E source (nat ?n - 1) (dist rb)"
    using bellman_ford_dist_props [OF assms(1,3) s] by blast
  have "dist rd = dist rb"
  proof (rule nth_equalityI)
    show "length (dist rd) = length (dist rb)" using rd(2) rb(2) by simp
  next
    fix i assume "i < length (dist rd)"
    then have i: "i < nat ?n" "0 \<le> int i" "int i < ?n" using rd(2) by simp_all
    have below: "\<exists>z. dist rd ! i = Fin z \<and> z \<le> y" if h: "dist rb ! i = Fin y" for y
    proof -
      have "i < length (dist rb)" using i(1) rb(2) by simp
      then obtain k where "walk ?E source (int i) y k"
        using rb(3) h unfolding sound_def by blast
      then show ?thesis
        using stable_below_walks [OF rd(3) rd(4), of ?E "int i" y k] by simp
    qed
    show "dist rd ! i = dist rb ! i"
    proof (cases "dist rd ! i")
      case (Fin x)
      then obtain k where k: "walk ?E source (int i) x k" "k \<le> nat ?n - 1"
        using rd(5) [of "int i" x] i by auto
      then obtain y where y: "dist rb ! i = Fin y" "y \<le> x"
        using rb(4) unfolding covered_def by fastforce
      then show ?thesis using below [OF y(1)] Fin by auto
    next
      case INFTY
      then show ?thesis using below by (cases "dist rb ! i") auto
    qed
  qed
  then show ?thesis using rd(1) rb(1) by blast
qed

lemma dists_agree_refl: "dists_agree d d"
proof -
  have "w_agree a a" for a by (cases a) simp_all
  then show ?thesis by (simp add: dists_agree_def)
qed

text \<open>
  In particular, on every directed graph with non-negative weights and for every source the
  two algorithms agree as the claim on their agreement says.
\<close>

lemma dijkstra_bellman_ford_agree_directed:
  assumes "graph_inv g" "nonneg_weights g" "is_directed g"
  shows "\<exists>rd rb. dijkstra g source = Inr rd \<and> bellman_ford g source = Inr rb \<and>
           dist rd = dist rb \<and> dists_agree (dist rd) (dist rb)"
proof -
  have "bf_edges g = all_entries g"
    using bf_edges_directed assms(1,3) by (simp add: graph_inv_def)
  then show ?thesis
    using dijkstra_bellman_ford_same_dist [OF assms(1,2), of source] dists_agree_refl by fastforce
qed

section \<open>Claims about the graph\<close>

text \<open>
  C5. On an undirected graph, \<open>add_edge(u,v,w)\<close> with \<open>u \<noteq> v\<close> appends \<open>(v,w)\<close> to the list of
  \<open>u\<close> and the mirror entry \<open>(u,w)\<close> to the list of \<open>v\<close> and changes nothing else, while
  \<open>add_edge(u,u,w)\<close> appends one entry only; and after \<open>k\<close> insertions of undirected edges
  without self-loops into a fresh undirected graph, \<open>edge_count()\<close> is \<open>k\<close> (this holds
  whether or not the edges are distinct).
\<close>

theorem add_edge_undirected_mirror_and_count:
  "(graph_inv g \<and> \<not> is_directed g \<and> 0 \<le> u \<and> u < vertex_count g \<and> 0 \<le> v \<and> v < vertex_count g \<longrightarrow>
      (u \<noteq> v \<longrightarrow> add_edge g u v w =
          (g\<lparr>adj := (adj g)[nat u := adj g ! nat u @ [Edge v w],
                             nat v := adj g ! nat v @ [Edge u w]]\<rparr>, None)) \<and>
      (u = v \<longrightarrow> add_edge g u v w =
          (g\<lparr>adj := (adj g)[nat u := adj g ! nat u @ [Edge u w]]\<rparr>, None))) \<and>
   (0 \<le> n \<and> list_all (\<lambda>(a, b, c). 0 \<le> a \<and> a < n \<and> 0 \<le> b \<and> b < n \<and> a \<noteq> b) es \<longrightarrow>
      (\<exists>g'. add_edges (Graph_new n False) es = (g', None) \<and> edge_count g' = length es))"
proof (intro conjI impI)
  assume h: "graph_inv g \<and> \<not> is_directed g \<and> 0 \<le> u \<and> u < vertex_count g \<and> 0 \<le> v \<and> v < vertex_count g"
  {
    assume "u \<noteq> v"
    then show "add_edge g u v w =
          (g\<lparr>adj := (adj g)[nat u := adj g ! nat u @ [Edge v w],
                             nat v := adj g ! nat v @ [Edge u w]]\<rparr>, None)"
      using h add_edge_ok [of u g v w] by simp
  }
  {
    assume "u = v"
    then show "add_edge g u v w =
          (g\<lparr>adj := (adj g)[nat u := adj g ! nat u @ [Edge u w]]\<rparr>, None)"
      using h add_edge_ok [of u g v w] by simp
  }
next
  assume h: "0 \<le> n \<and> list_all (\<lambda>(a, b, c). 0 \<le> a \<and> a < n \<and> 0 \<le> b \<and> b < n \<and> a \<noteq> b) es"
  have inv: "graph_inv (Graph_new n False)"
    using h graph_inv_Graph_new by simp
  have nd: "\<not> is_directed (Graph_new n False)" "vertex_count (Graph_new n False) = n"
    by (simp_all add: Graph_new_def)
  obtain g' where g': "add_edges (Graph_new n False) es = (g', None)" "graph_inv g'"
      "\<not> is_directed g'" "total_entries g' = total_entries (Graph_new n False) + 2 * length es"
    using add_edges_undirected_count [OF inv nd(1), of es] h nd(2) by auto
  have "edge_count g' = length es"
    using g' edge_count_total [of g'] by (simp add: graph_inv_def total_entries_Graph_new)
  then show "\<exists>g'. add_edges (Graph_new n False) es = (g', None) \<and> edge_count g' = length es"
    using g'(1) by blast
qed

theorem add_edge_undirected_mirror_and_count_witness:
  "graph_inv (Graph_new 3 False) \<and>
   add_edge (Graph_new 3 False) 0 1 (Fin 2) =
     (\<lparr>vertex_count = 3, is_directed = False,
       adj = [[Edge 1 (Fin 2)], [Edge 0 (Fin 2)], []]\<rparr>, None) \<and>
   add_edge (Graph_new 3 False) 1 1 (Fin 2) =
     (\<lparr>vertex_count = 3, is_directed = False, adj = [[], [Edge 1 (Fin 2)], []]\<rparr>, None) \<and>
   (\<exists>g'. add_edges (Graph_new 3 False) [(0, 1, Fin 1), (1, 2, Fin 1)] = (g', None) \<and>
         edge_count g' = 2)"
proof -
  have inv: "graph_inv (Graph_new 3 False)"
    by (simp add: graph_inv_Graph_new)
  have g: "Graph_new 3 False = \<lparr>vertex_count = 3, is_directed = False, adj = [[], [], []]\<rparr>"
    by (simp add: Graph_new_def numeral_3_eq_3)
  show ?thesis
    using inv
      add_edge_undirected_mirror_and_count [of "Graph_new 3 False" 0 1 "Fin 2" 3 "[(0, 1, Fin 1), (1, 2, Fin 1)]"]
      add_edge_undirected_mirror_and_count [of "Graph_new 3 False" 1 1 "Fin 2" 0 "[]"]
    by (simp add: g numeral_2_eq_2)
qed


text \<open>
  C6. A call \<open>add_edge(u,v,w)\<close> with \<open>u\<close> or \<open>v\<close> outside \<open>[0,n)\<close> throws \<open>out_of_range\<close>, and
  the graph after the failed call is the graph before it.
\<close>

theorem add_edge_out_of_range_atomic:
  "u < 0 \<or> vertex_count g \<le> u \<or> v < 0 \<or> vertex_count g \<le> v \<Longrightarrow>
     add_edge g u v w = (g, Some out_of_range)"
  by (auto simp: add_edge_def)

theorem add_edge_out_of_range_atomic_witness:
  "vertex_count (Graph_new 3 True) \<le> 5 \<and>
   add_edge (Graph_new 3 True) 5 0 (Fin 1) = (Graph_new 3 True, Some out_of_range)"
  using add_edge_out_of_range_atomic [of 5 "Graph_new 3 True" 0 "Fin 1"]
  by (simp add: Graph_new_def)

section \<open>Claims about the shortest-path algorithms\<close>

text \<open>
  C10. For a source outside \<open>[0, n)\<close>, \<open>dijkstra\<close> and \<open>bellman_ford\<close> both return normally
  a result of length \<open>n\<close> (the vertex count, not negative) in which every distance is
  \<open>INF\<close>, every parent is \<open>-1\<close> and the negative-cycle flag is false.
\<close>

theorem out_of_range_source:
  "0 \<le> vertex_count g \<Longrightarrow> source < 0 \<or> vertex_count g \<le> source \<Longrightarrow>
     dijkstra g source =
       Inr \<lparr>dist = replicate (nat (vertex_count g)) INFTY,
            parent = replicate (nat (vertex_count g)) (- 1), has_negative_cycle = False\<rparr> \<and>
     bellman_ford g source =
       Inr \<lparr>dist = replicate (nat (vertex_count g)) INFTY,
            parent = replicate (nat (vertex_count g)) (- 1), has_negative_cycle = False\<rparr>"
  by (auto simp: dijkstra_def bellman_ford_def init_result_eq Let_def)

theorem out_of_range_source_witness:
  "0 \<le> vertex_count (Graph_new 2 True) \<and> vertex_count (Graph_new 2 True) \<le> 2 \<and>
   dijkstra (Graph_new 2 True) 2 =
       Inr \<lparr>dist = [INFTY, INFTY], parent = [- 1, - 1], has_negative_cycle = False\<rparr> \<and>
   bellman_ford (Graph_new 2 True) 2 =
       Inr \<lparr>dist = [INFTY, INFTY], parent = [- 1, - 1], has_negative_cycle = False\<rparr>"
  using out_of_range_source [of "Graph_new 2 True" 2]
  by (simp add: Graph_new_def numeral_2_eq_2)

text \<open>
  C4. \<open>dijkstra\<close> never uses an edge of negative weight: the loop body leaves the distances,
  the parents and the queue as they are on such an edge and raises nothing; so the result of
  \<open>dijkstra\<close> is that on the graph without its negative edges.
\<close>

theorem dijkstra_skips_negative_edges:
  "(w_less (weight e) (Fin 0) \<longrightarrow> dijkstra_relax u e (ds, ps, pq) = Inr (ds, ps, pq)) \<and>
   (length (adj g) = nat (vertex_count g) \<longrightarrow>
      dijkstra (drop_negative g) source = dijkstra g source)"
  using dijkstra_relax_negative [of e u "(ds, ps, pq)"] dijkstra_drop_negative [of g source]
  by blast

theorem dijkstra_skips_negative_edges_witness:
  "w_less (weight (Edge 1 (Fin (- 3)))) (Fin 0) \<and>
   dijkstra_relax 0 (Edge 1 (Fin (- 3))) ([Fin 0, INFTY], [- 1, - 1], [(0, Fin 0)]) =
     Inr ([Fin 0, INFTY], [- 1, - 1], [(0, Fin 0)]) \<and>
   length (adj \<lparr>vertex_count = 2, is_directed = True,
       adj = [[Edge 1 (Fin (- 3)), Edge 1 (Fin 2)], []]\<rparr>) = nat 2 \<and>
   dijkstra \<lparr>vertex_count = 2, is_directed = True, adj = [[Edge 1 (Fin 2)], []]\<rparr> 0 =
   dijkstra \<lparr>vertex_count = 2, is_directed = True,
       adj = [[Edge 1 (Fin (- 3)), Edge 1 (Fin 2)], []]\<rparr> 0"
  using dijkstra_skips_negative_edges [of "Edge 1 (Fin (- 3))" 0 "[Fin 0, INFTY]" "[- 1, - 1]" "[(0, Fin 0)]"
      "\<lparr>vertex_count = 2, is_directed = True, adj = [[Edge 1 (Fin (- 3)), Edge 1 (Fin 2)], []]\<rparr>" 0]
  by (simp add: drop_negative_def)

text \<open>
  C3. For a graph that satisfies the class invariant and a source in \<open>[0, n)\<close>,
  \<open>bellman_ford\<close> returns a result (it does not fail) whose distances and parents are those
  left by the main relaxation passes and whose flag \<open>has_negative_cycle\<close> is true exactly
  when some edge of its edge list can still be relaxed at these distances. On the directed
  cycle \<open>0\<rightarrow>1 (1), 1\<rightarrow>2 (-2), 2\<rightarrow>0 (-1)\<close> with source \<open>0\<close> the flag is true, and distances
  and parents are returned.
\<close>

theorem bellman_ford_negative_cycle_flag:
  "(graph_inv g \<and> 0 \<le> source \<and> source < vertex_count g \<longrightarrow>
      (\<exists>d p. bf_passes (nat (vertex_count g - 1)) (bf_edges g)
                 ((replicate (nat (vertex_count g)) INFTY)[nat source := Fin 0],
                  replicate (nat (vertex_count g)) (- 1)) = Inr (d, p) \<and>
              bellman_ford g source =
                Inr \<lparr>dist = d, parent = p,
                     has_negative_cycle = (\<exists>e\<in>set (bf_edges g). can_relax d e)\<rparr>)) \<and>
   bellman_ford
     (fst (add_edges (Graph_new 3 True) [(0, 1, Fin 1), (1, 2, Fin (- 2)), (2, 0, Fin (- 1))])) 0 =
     Inr \<lparr>dist = [Fin (- 4), Fin (- 1), Fin (- 3)], parent = [2, 0, 1],
          has_negative_cycle = True\<rparr>"
proof (intro conjI impI)
  assume "graph_inv g \<and> 0 \<le> source \<and> source < vertex_count g"
  then show "\<exists>d p. bf_passes (nat (vertex_count g - 1)) (bf_edges g)
                 ((replicate (nat (vertex_count g)) INFTY)[nat source := Fin 0],
                  replicate (nat (vertex_count g)) (- 1)) = Inr (d, p) \<and>
              bellman_ford g source =
                Inr \<lparr>dist = d, parent = p,
                     has_negative_cycle = (\<exists>e\<in>set (bf_edges g). can_relax d e)\<rparr>"
    using bellman_ford_ok [of g source] by blast
next
  show "bellman_ford
     (fst (add_edges (Graph_new 3 True) [(0, 1, Fin 1), (1, 2, Fin (- 2)), (2, 0, Fin (- 1))])) 0 =
     Inr \<lparr>dist = [Fin (- 4), Fin (- 1), Fin (- 3)], parent = [2, 0, 1],
          has_negative_cycle = True\<rparr>"
    by code_simp
qed

theorem bellman_ford_negative_cycle_flag_witness:
  "graph_inv \<lparr>vertex_count = 2, is_directed = True, adj = [[Edge 1 (Fin 1)], [Edge 0 (Fin (- 2))]]\<rparr> \<and>
   (\<exists>d p. bf_passes (nat (2 - 1))
             (bf_edges \<lparr>vertex_count = 2, is_directed = True,
                        adj = [[Edge 1 (Fin 1)], [Edge 0 (Fin (- 2))]]\<rparr>)
             ((replicate (nat 2) INFTY)[nat 0 := Fin 0], replicate (nat 2) (- 1)) = Inr (d, p) \<and>
           bellman_ford \<lparr>vertex_count = 2, is_directed = True,
                          adj = [[Edge 1 (Fin 1)], [Edge 0 (Fin (- 2))]]\<rparr> 0 =
             Inr \<lparr>dist = d, parent = p,
                  has_negative_cycle =
                    (\<exists>e\<in>set (bf_edges \<lparr>vertex_count = 2, is_directed = True,
                        adj = [[Edge 1 (Fin 1)], [Edge 0 (Fin (- 2))]]\<rparr>). can_relax d e)\<rparr>)"
proof -
  have inv: "graph_inv \<lparr>vertex_count = 2, is_directed = True,
      adj = [[Edge 1 (Fin 1)], [Edge 0 (Fin (- 2))]]\<rparr>"
    by (simp add: graph_inv_def)
  show ?thesis
    using inv bellman_ford_negative_cycle_flag
      [of "\<lparr>vertex_count = 2, is_directed = True, adj = [[Edge 1 (Fin 1)], [Edge 0 (Fin (- 2))]]\<rparr>" 0]
    by simp
qed

section \<open>Claims about the comparator\<close>

text \<open>
  C8. For a graph that satisfies the class invariant and any source, both algorithms return
  and the comparator returns exactly two records, the first for Dijkstra and the second for
  Bellman-Ford: the first is \<open>ok\<close> exactly when the Dijkstra distance vector is non-empty,
  the second exactly when no negative cycle was flagged and the two distance vectors agree
  (same length; at every vertex both infinite, or both finite and within \<open>1e-6\<close>).
\<close>

theorem compare_algorithms_records:
  "graph_inv g \<Longrightarrow>
     \<exists>rd rb. dijkstra g source = Inr rd \<and> bellman_ford g source = Inr rb \<and>
       compare_algorithms_on_graph g source td tb =
         Inr [\<lparr>vertices = vertex_count g, edges = edge_count g, algorithm = ''Dijkstra'',
               time_ms = td, ok = (dist rd \<noteq> [])\<rparr>,
              \<lparr>vertices = vertex_count g, edges = edge_count g, algorithm = ''Bellman-Ford'',
               time_ms = tb,
               ok = (\<not> has_negative_cycle rb \<and> dists_agree (dist rd) (dist rb))\<rparr>]"
proof -
  assume inv: "graph_inv g"
  obtain rd where rd: "dijkstra g source = Inr rd" "length (dist rd) = nat (vertex_count g)"
    using dijkstra_ok [OF inv, of source] by blast
  obtain rb where rb: "bellman_ford g source = Inr rb" "length (dist rb) = nat (vertex_count g)"
    using bellman_ford_returns [OF inv, of source] by blast
  have len: "length (dist rb) = length (dist rd)"
    using rd(2) rb(2) by simp
  have same: "same_loop (dist rd) (dist rb) (upto_n (da_GetSize (dist rd))) =
      Inr (dists_agree (dist rd) (dist rb))"
    using same_loop_upto [OF len] len by (simp add: dists_agree_def)
  have "compare_algorithms_on_graph g source td tb =
         Inr [\<lparr>vertices = vertex_count g, edges = edge_count g, algorithm = ''Dijkstra'',
               time_ms = td, ok = (dist rd \<noteq> [])\<rparr>,
              \<lparr>vertices = vertex_count g, edges = edge_count g, algorithm = ''Bellman-Ford'',
               time_ms = tb,
               ok = (\<not> has_negative_cycle rb \<and> dists_agree (dist rd) (dist rb))\<rparr>]"
    using rd(1) rb(1) len same
    by (simp add: compare_algorithms_on_graph_def da_GetSize_def)
  then show ?thesis
    using rd(1) rb(1) by blast
qed

theorem compare_algorithms_records_witness:
  "graph_inv \<lparr>vertex_count = 2, is_directed = True, adj = [[Edge 1 (Fin 1)], []]\<rparr> \<and>
   compare_algorithms_on_graph
       \<lparr>vertex_count = 2, is_directed = True, adj = [[Edge 1 (Fin 1)], []]\<rparr> 0 3 4 =
     Inr [\<lparr>vertices = 2, edges = 1, algorithm = ''Dijkstra'', time_ms = 3, ok = True\<rparr>,
          \<lparr>vertices = 2, edges = 1, algorithm = ''Bellman-Ford'', time_ms = 4, ok = True\<rparr>]"
proof -
  let ?g = "\<lparr>vertex_count = 2, is_directed = True, adj = [[Edge 1 (Fin 1)], []]\<rparr>"
  have inv: "graph_inv ?g"
    by (simp add: graph_inv_def)
  have d: "dijkstra ?g 0 =
      Inr \<lparr>dist = [Fin 0, Fin 1], parent = [- 1, 0], has_negative_cycle = False\<rparr>"
    by code_simp
  have b: "bellman_ford ?g 0 =
      Inr \<lparr>dist = [Fin 0, Fin 1], parent = [- 1, 0], has_negative_cycle = False\<rparr>"
    by code_simp
  have e: "edge_count ?g = 1"
    by code_simp
  have a: "dists_agree [Fin 0, Fin 1] [Fin 0, Fin 1]"
    by (simp add: dists_agree_def less_Suc_eq)
  show ?thesis
    using inv compare_algorithms_records [of ?g 0 3 4] d b e a by simp
qed

section \<open>Claims about path reconstruction\<close>

text \<open>
  C7 (amended). For every parent array of length \<open>n\<close>, every source and every target: if
  the target is outside \<open>[0, n)\<close>, or the backward walk from the target reaches the none
  sentinel \<open>-1\<close> without passing through the source, \<open>restore_path\<close> returns the empty
  sequence and raises no error; and whenever the target equals the source and lies in
  \<open>[0, n)\<close>, \<open>restore_path\<close> returns the single-element sequence \<open>[source]\<close>.
\<close>

theorem restore_path_empty_or_single:
  "(target < 0 \<or> int (length par) \<le> target \<longrightarrow> restore_path source target par = Inr []) \<and>
   ((\<exists>k. walk_to_none par source target k) \<longrightarrow> restore_path source target par = Inr []) \<and>
   (target = source \<and> 0 \<le> target \<and> target < int (length par) \<longrightarrow>
      restore_path source target par = Inr [source])"
  using restore_path_out_of_range [of target par source]
    restore_path_unreachable [of par source target]
    restore_path_self [of source par]
  by blast

theorem restore_path_empty_or_single_witness:
  "restore_path 0 3 [- 1, 0, 1] = Inr [] \<and>
   walk_to_none [- 1, - 1, 1] 0 2 1 \<and> restore_path 0 2 [- 1, - 1, 1] = Inr [] \<and>
   restore_path 1 1 [- 1, 0, 1] = Inr [1]"
proof -
  have w: "walk_to_none [- 1, - 1, 1] 0 2 1"
    by (simp add: numeral_2_eq_2)
  then have "\<exists>k. walk_to_none [- 1, - 1, 1] 0 2 k" ..
  then show ?thesis
    using w restore_path_empty_or_single [of 3 "[- 1, 0, 1]" 0]
      restore_path_empty_or_single [of 2 "[- 1, - 1, 1]" 0]
      restore_path_empty_or_single [of 1 "[- 1, 0, 1]" 1]
    by auto
qed

text \<open>
  The claim as stated fails where the target equals the source and is not an index of the
  parent array: the range check comes first and the result is empty.
\<close>

theorem restore_path_self_counterexample:
  "restore_path 7 7 [- 1, 0, 1] = Inr [] \<and> restore_path 7 7 [- 1, 0, 1] \<noteq> Inr [7]"
  by (simp add: restore_path_def da_GetSize_def)

section \<open>Claims about random graphs\<close>



section \<open>Where the code departs from the claims\<close>

text \<open>
  C2 fails on the code for undirected graphs. \<open>bellman_ford\<close> sizes its edge list by
  \<open>edge_count()\<close>, which is halved for an undirected graph, and stores an adjacency entry
  only while the list is shorter than that: on the undirected graph with the single edge
  \<open>0 - 1\<close> the edge list holds the entry \<open>0\<rightarrow>1\<close> and not the stored mirror entry \<open>1\<rightarrow>0\<close>.
  (On a directed graph the edge list is the full flattening, \<open>bf_edges_directed\<close>, and the
  early exit never changes the result, \<open>bf_passes_early_exit\<close>.)
\<close>

theorem bf_edges_undirected_misses_mirror:
  "all_entries (fst (add_edges (Graph_new 2 False) [(0, 1, Fin 1)])) =
     [BFEdge 0 1 (Fin 1), BFEdge 1 0 (Fin 1)] \<and>
   bf_edges (fst (add_edges (Graph_new 2 False) [(0, 1, Fin 1)])) = [BFEdge 0 1 (Fin 1)]"
  by code_simp

text \<open>
  C1 fails on the code for the same reason: on that graph (its only weight is \<open>1\<close>, not
  negative) with source \<open>1\<close>, \<open>dijkstra\<close> finds vertex \<open>0\<close> at distance \<open>1\<close> while
  \<open>bellman_ford\<close> leaves it at \<open>INF\<close>. (On directed graphs with non-negative weights the
  two algorithms return the same distances, \<open>dijkstra_bellman_ford_agree_directed\<close>.)
\<close>

theorem dijkstra_bellman_ford_differ_undirected:
  "dijkstra (fst (add_edges (Graph_new 2 False) [(0, 1, Fin 1)])) 1 =
     Inr \<lparr>dist = [Fin 1, Fin 0], parent = [1, - 1], has_negative_cycle = False\<rparr> \<and>
   bellman_ford (fst (add_edges (Graph_new 2 False) [(0, 1, Fin 1)])) 1 =
     Inr \<lparr>dist = [INFTY, Fin 0], parent = [- 1, - 1], has_negative_cycle = False\<rparr>"
  by code_simp

end
